theory Spec2Isabelle
  imports Main "HOL-Library.Word" "HOL-Library.Monad_Syntax"
begin

unbundle bit_operations_syntax

section \<open>The gossip message codec of smudge (message.go)\<close>

text \<open>
  A shallow embedding of \<^verbatim>\<open>vendor/github.com/clockworksoul/smudge/message.go\<close>.
  Go values are modelled as follows.
  \<^item> \<^verbatim>\<open>byte\<close>, \<^verbatim>\<open>uint16\<close>, \<^verbatim>\<open>uint32\<close> are words of that width; conversions
    between them are \<open>ucast\<close>, shifts are \<open>push_bit\<close> and \<open>drop_bit\<close>.
  \<^item> A pointer that may be \<^verbatim>\<open>nil\<close> is an \<open>option\<close>.
  \<^item> A run-time panic (index out of range, slice bounds out of range, nil dereference)
    is the value \<open>None\<close> of the function's result; a function that returns normally
    returns \<open>Some\<close>. A Go \<^verbatim>\<open>error\<close> value is a value of the datatype \<open>error\<close>.
  \<^item> A buffer that is only indexed is a \<open>byte list\<close>. The datagram handed to the decoder
    is re-sliced, and Go checks a slice expression against the capacity of the slice,
    not its length, so the decoder's input is a \<open>slice\<close>: the visible elements and the
    elements of the backing array between length and capacity.
\<close>

type_synonym byte = "8 word"
type_synonym uint16 = "16 word"
type_synonym uint32 = "32 word"

subsection \<open>Go's net.IP\<close>

text \<open>\<^verbatim>\<open>net.IP\<close> is a byte slice of length 4 or 16; \<^verbatim>\<open>nil\<close> is the empty list.\<close>

type_synonym IP = "byte list"

definition v4InV6Prefix :: "byte list" where
  "v4InV6Prefix = [0, 0, 0, 0, 0, 0, 0, 0, 0, 0, 0xff, 0xff]"

text \<open>\<^verbatim>\<open>net.IPv4(a, b, c, d)\<close>: the 16-byte IPv4-mapped form.\<close>

definition IPv4 :: "byte \<Rightarrow> byte \<Rightarrow> byte \<Rightarrow> byte \<Rightarrow> IP" where
  "IPv4 a b c d = v4InV6Prefix @ [a, b, c, d]"

text \<open>\<^verbatim>\<open>ip.To4()\<close>: the 4-byte form of an IPv4 address, \<^verbatim>\<open>nil\<close> for anything else.\<close>

definition To4 :: "IP \<Rightarrow> IP" where
  "To4 a = (if length a = 4 then a
            else if length a = 16 \<and> take 12 a = v4InV6Prefix then drop 12 a
            else [])"

text \<open>\<^verbatim>\<open>ip.To16()\<close>: the 16-byte form, \<^verbatim>\<open>nil\<close> when the length is neither 4 nor 16.\<close>

definition To16 :: "IP \<Rightarrow> IP" where
  "To16 a = (if length a = 4 then IPv4 (a ! 0) (a ! 1) (a ! 2) (a ! 3)
             else if length a = 16 then a
             else [])"

subsection \<open>Go's hash/adler32\<close>

text \<open>
  \<^verbatim>\<open>adler32.Checksum\<close>: two running sums modulo 65521 starting from 1 and 0, the
  second in the high half of the result.
\<close>

definition adler32_step :: "nat \<times> nat \<Rightarrow> byte \<Rightarrow> nat \<times> nat" where
  "adler32_step s x = (let a = (fst s + unat x) mod 65521 in (a, (snd s + a) mod 65521))"

definition adler32 :: "byte list \<Rightarrow> uint32" where
  "adler32 bs = (let s = foldl adler32_step (1, 0) bs in of_nat (snd s * 65536 + fst s))"

subsection \<open>Slices with a capacity\<close>

record slice =
  elems :: "byte list"
  spare :: "byte list"

text \<open>
  \<^verbatim>\<open>s[lo:hi]\<close> panics unless \<open>lo \<le> hi \<le> cap(s)\<close>; the result sees the backing array
  from \<open>lo\<close> and keeps the capacity that is left.
\<close>

definition reslice :: "slice \<Rightarrow> nat \<Rightarrow> nat \<Rightarrow> slice option" where
  "reslice s lo hi =
     (if lo \<le> hi \<and> hi \<le> length (elems s) + length (spare s)
      then Some \<lparr>elems = take (hi - lo) (drop lo (elems s @ spare s)),
                 spare = drop hi (elems s @ spare s)\<rparr>
      else None)"

text \<open>\<^verbatim>\<open>s[lo:]\<close> is \<^verbatim>\<open>s[lo:len(s)]\<close>.\<close>

definition resliceFrom :: "slice \<Rightarrow> nat \<Rightarrow> slice option" where
  "resliceFrom s lo = reslice s lo (length (elems s))"

text \<open>\<^verbatim>\<open>bytes[i]\<close> as a read: panics when \<open>i\<close> is not below the length.\<close>

definition at :: "byte list \<Rightarrow> nat \<Rightarrow> byte option" where
  "at bs i = (if i < length bs then Some (bs ! i) else None)"

subsection \<open>Wire codec primitives\<close>

text \<open>
  Modelled from the spec: \<^verbatim>\<open>encodeByte\<close>, \<^verbatim>\<open>encodeUint16\<close>, \<^verbatim>\<open>encodeUint32\<close>,
  \<^verbatim>\<open>decodeByte\<close>, \<^verbatim>\<open>decodeUint16\<close> and \<^verbatim>\<open>decodeUint32\<close> are called by message.go
  but defined in a file that is not among the sources. Section 4.2 of the spec: each
  encoder writes a fixed-width big-endian value at the given offset of the buffer and
  returns the number of bytes written; each decoder returns the value and the new cursor;
  none of them validates bounds, so an access outside the buffer is Go's index panic.
  The encoders mutate the buffer in place; here they return it.
\<close>

definition encodeByte :: "byte \<Rightarrow> byte list \<Rightarrow> nat \<Rightarrow> (byte list \<times> nat) option" where
  "encodeByte v buf p = (if p < length buf then Some (buf[p := v], 1) else None)"

definition encodeUint16 :: "uint16 \<Rightarrow> byte list \<Rightarrow> nat \<Rightarrow> (byte list \<times> nat) option" where
  "encodeUint16 v buf p =
     (if p + 1 < length buf
      then Some (buf[p := ucast (drop_bit 8 v), p + 1 := ucast v], 2)
      else None)"

definition encodeUint32 :: "uint32 \<Rightarrow> byte list \<Rightarrow> nat \<Rightarrow> (byte list \<times> nat) option" where
  "encodeUint32 v buf p =
     (if p + 3 < length buf
      then Some (buf[p := ucast (drop_bit 24 v), p + 1 := ucast (drop_bit 16 v),
                     p + 2 := ucast (drop_bit 8 v), p + 3 := ucast v], 4)
      else None)"

definition decodeByte :: "byte list \<Rightarrow> nat \<Rightarrow> (byte \<times> nat) option" where
  "decodeByte buf p = (if p < length buf then Some (buf ! p, p + 1) else None)"

definition decodeUint16 :: "byte list \<Rightarrow> nat \<Rightarrow> (uint16 \<times> nat) option" where
  "decodeUint16 buf p =
     (if p + 1 < length buf
      then Some (push_bit 8 (ucast (buf ! p)) OR ucast (buf ! (p + 1)), p + 2)
      else None)"

definition decodeUint32 :: "byte list \<Rightarrow> nat \<Rightarrow> (uint32 \<times> nat) option" where
  "decodeUint32 buf p =
     (if p + 3 < length buf
      then Some (push_bit 24 (ucast (buf ! p)) OR push_bit 16 (ucast (buf ! (p + 1))) OR
                 push_bit 8 (ucast (buf ! (p + 2))) OR ucast (buf ! (p + 3)), p + 4)
      else None)"

subsection \<open>Nodes, statuses, verbs\<close>

text \<open>
  Modelled from the spec: the \<^verbatim>\<open>Node\<close> struct is declared outside the sources.
  message.go reads two of its fields, \<^verbatim>\<open>ip\<close> and \<^verbatim>\<open>port\<close>, which are also what
  section 3 of the spec says identifies a node.
\<close>

record Node =
  ip :: IP
  port :: uint16

text \<open>
  Modelled from the spec: the global node directory \<^verbatim>\<open>knownNodes\<close> and
  \<^verbatim>\<open>CreateNodeByIP\<close> are outside the sources; they are parameters of the decoder.
  \<^verbatim>\<open>getByIP\<close> returns \<^verbatim>\<open>nil\<close> for an unknown address; the error that
  \<^verbatim>\<open>CreateNodeByIP\<close> returns beside the node is dropped by every caller in message.go.
\<close>

record directory =
  getByIP :: "IP \<Rightarrow> uint16 \<Rightarrow> Node option"
  CreateNodeByIP :: "IP \<Rightarrow> uint16 \<Rightarrow> Node option"

text \<open>
  Modelled from the spec: \<^verbatim>\<open>NodeStatus\<close> and its constants are declared outside the
  sources. message.go converts it from and to \<^verbatim>\<open>byte\<close>, so it is an integer type; the
  ordinals are those of section 3 of the spec and of the \<^verbatim>\<open>Status\<close> enumeration of
  service.proto.
\<close>

type_synonym NodeStatus = byte

definition StatusAlive :: NodeStatus where "StatusAlive = 1"
definition StatusDead :: NodeStatus where "StatusDead = 3"
definition StatusForwardTo :: NodeStatus where "StatusForwardTo = 4"

text \<open>\<^verbatim>\<open>type messageVerb byte\<close> with four constants numbered by \<^verbatim>\<open>iota\<close>.\<close>

type_synonym messageVerb = byte

definition verbPing :: messageVerb where "verbPing = 0"
definition verbAck :: messageVerb where "verbAck = 1"
definition verbPingRequest :: messageVerb where "verbPingRequest = 2"
definition verbNonForwardingPing :: messageVerb where "verbNonForwardingPing = 3"

subsection \<open>Messages\<close>

record messageMember =
  source :: "Node option"
  heartbeat :: uint32
  node :: "Node option"
  status :: NodeStatus

text \<open>
  Modelled from the spec: the \<^verbatim>\<open>Broadcast\<close> struct is declared outside the sources;
  message.go reads its field \<^verbatim>\<open>bytes\<close>. Section 3 of the spec: an origin node, a
  counter and an opaque payload.
\<close>

record Broadcast =
  origin :: "Node option"
  index :: uint32
  bytes :: "byte list"

text \<open>
  \<^verbatim>\<open>members\<close> is a slice of pointers that \<^verbatim>\<open>addMember\<close> and \<^verbatim>\<open>decodeMembers\<close>
  fill with fresh, non-nil members; a \<^verbatim>\<open>nil\<close> slice and an empty one are both \<open>[]\<close>
  (they have the same length, range and append).
\<close>

record message =
  sender :: "Node option"
  senderHeartbeat :: uint32
  verb :: messageVerb
  members :: "messageMember list"
  broadcast :: "Broadcast option"

datatype error =
  ChecksumFailure IP  \<comment> \<open>\<^verbatim>\<open>errors.New("checksum failure from " + sourceIP.String())\<close>\<close>
  | MemberListOverflow  \<comment> \<open>\<^verbatim>\<open>errors.New("member list overflow")\<close>\<close>
  | MalformedBroadcastSection  \<comment> \<open>the error of \<^verbatim>\<open>decodeBroadcast\<close>\<close>

definition newMessage :: "messageVerb \<Rightarrow> Node option \<Rightarrow> uint32 \<Rightarrow> message" where
  "newMessage v s h =
     \<lparr>sender = s, senderHeartbeat = h, verb = v, members = [], broadcast = None\<rparr>"

definition addBroadcast :: "message \<Rightarrow> Broadcast option \<Rightarrow> message" where
  "addBroadcast m b = m\<lparr>broadcast := b\<rparr>"

text \<open>
  \<^verbatim>\<open>addMember\<close> mutates the message and returns an error or \<^verbatim>\<open>nil\<close>; the model returns
  the message after the call and the error. The first branch of the source allocates
  when the slice is \<^verbatim>\<open>nil\<close>, the second refuses a list of 63 or more.
\<close>

definition addMember ::
  "message \<Rightarrow> Node option \<Rightarrow> NodeStatus \<Rightarrow> uint32 \<Rightarrow> Node option \<Rightarrow> message \<times> error option" where
  "addMember m n st hb gossipSource =
     (if members m = [] then
        (m\<lparr>members := [] @ [\<lparr>source = gossipSource, heartbeat = hb, node = n, status = st\<rparr>]\<rparr>, None)
      else if length (members m) \<ge> 63 then (m, Some MemberListOverflow)
      else
        (m\<lparr>members := members m @ [\<lparr>source = gossipSource, heartbeat = hb, node = n, status = st\<rparr>]\<rparr>,
         None))"

definition getForwardTo :: "message \<Rightarrow> messageMember option" where
  "getForwardTo m =
     (if length (members m) > 0 \<and> status (members m ! 0) = StatusForwardTo
      then Some (members m ! 0)
      else None)"

subsection \<open>Broadcast payload codec\<close>

text \<open>
  The blocks of \<^verbatim>\<open>encode\<close> that pick the form of an address for the active family:
  \<^verbatim>\<open>To4\<close> when \<^verbatim>\<open>ipLen\<close> is 4, \<^verbatim>\<open>To16\<close> when it is 16, and a \<^verbatim>\<open>nil\<close> slice
  otherwise (the variable keeps its zero value).
\<close>

definition ipBytes :: "nat \<Rightarrow> IP \<Rightarrow> IP" where
  "ipBytes ipLen a = (if ipLen = 4 then To4 a else if ipLen = 16 then To16 a else [])"

text \<open>
  Modelled from the spec: \<^verbatim>\<open>Broadcast.encode\<close> is outside the sources. Section 4.3 of
  the spec: origin IP (\<^verbatim>\<open>ipLen\<close> bytes), origin response port (2 bytes), broadcast
  counter (4 bytes), payload length (2 bytes), raw payload bytes, all big-endian. A
  missing origin or an origin address of the wrong family is a panic, as for a member
  in \<^verbatim>\<open>encode\<close>.
\<close>

definition Broadcast_encode :: "nat \<Rightarrow> Broadcast \<Rightarrow> byte list option" where
  "Broadcast_encode ipLen b =
     (case origin b of
        None \<Rightarrow> None
      | Some n \<Rightarrow>
          if length (ipBytes ipLen (ip n)) < ipLen then None
          else Some (take ipLen (ipBytes ipLen (ip n)) @
                     [ucast (drop_bit 8 (port n)), ucast (port n)] @
                     [ucast (drop_bit 24 (index b)), ucast (drop_bit 16 (index b)),
                      ucast (drop_bit 8 (index b)), ucast (index b)] @
                     [ucast (drop_bit 8 (word_of_nat (length (bytes b)) :: uint16)),
                      ucast (word_of_nat (length (bytes b)) :: uint16)] @
                     bytes b))"

text \<open>
  The block that \<^verbatim>\<open>decodeMessage\<close> and \<^verbatim>\<open>decodeMembers\<close> repeat for every address:
  look the node up in the directory and create a transient one when it is unknown.
\<close>

definition lookupOrCreate :: "directory \<Rightarrow> IP \<Rightarrow> uint16 \<Rightarrow> Node option" where
  "lookupOrCreate d a pt =
     (case getByIP d a pt of None \<Rightarrow> CreateNodeByIP d a pt | Some n \<Rightarrow> Some n)"

text \<open>
  The block of \<^verbatim>\<open>decodeMembers\<close> that reads an address at the cursor: for IPv6 a
  copy of \<^verbatim>\<open>bytes[p:p+16]\<close> (a slice expression, checked against the capacity), otherwise
  \<^verbatim>\<open>net.IPv4\<close> of four indexed bytes (checked against the length).
\<close>

definition readIP :: "nat \<Rightarrow> slice \<Rightarrow> nat \<Rightarrow> IP option" where
  "readIP ipLen s p =
     (if ipLen = 16 then do {
        t \<leftarrow> reslice s p (p + 16);
        Some (elems t)
      } else do {
        a \<leftarrow> at (elems s) (p + 0);
        b \<leftarrow> at (elems s) (p + 1);
        c \<leftarrow> at (elems s) (p + 2);
        d \<leftarrow> at (elems s) (p + 3);
        Some (IPv4 a b c d)
      })"

text \<open>
  Modelled from the spec: \<^verbatim>\<open>decodeBroadcast\<close> is outside the sources. Section 4.3 of
  the spec: the structural inverse of the encoding; the origin is resolved through the
  directory like every other address. Section 7 names the error of this section
  (a malformed broadcast section, returned beside the message) without its condition:
  the model returns it when fewer payload bytes remain than the length field declares.
  The header fields are read with the primitives, which do not check bounds.
\<close>

definition decodeBroadcast ::
  "nat \<Rightarrow> directory \<Rightarrow> slice \<Rightarrow> (Broadcast option \<times> error option) option" where
  "decodeBroadcast ipLen d s = do {
     a \<leftarrow> readIP ipLen s 0;
     let p = 0 + ipLen;
     (pt, p) \<leftarrow> decodeUint16 (elems s) p;
     (idx, p) \<leftarrow> decodeUint32 (elems s) p;
     (n, p) \<leftarrow> decodeUint16 (elems s) p;
     let org = lookupOrCreate d a pt;
     if length (elems s) < p + unat n then Some (None, Some MalformedBroadcastSection)
     else Some (Some \<lparr>origin = org, index = idx, bytes = take (unat n) (drop p (elems s))\<rparr>, None)
   }"

subsection \<open>Message encode\<close>

text \<open>The loop \<^verbatim>\<open>for i := 0; i < ipLen; i++ { bytes[p+i] = ipb[i] }\<close>.\<close>

function copyIP :: "nat \<Rightarrow> IP \<Rightarrow> byte list \<Rightarrow> nat \<Rightarrow> nat \<Rightarrow> byte list option" where
  "copyIP ipLen ipb buf p i =
     (if i < ipLen then
        (if i < length ipb \<and> p + i < length buf
         then copyIP ipLen ipb (buf[p + i := ipb ! i]) p (Suc i)
         else None)
      else Some buf)"
  by pat_completeness auto
termination
  by (relation "measure (\<lambda>(ipLen, ipb, buf, p, i). ipLen - i)") auto

declare copyIP.simps [simp del]

text \<open>
  The body of the loop over the members: status byte, member address and port, member
  heartbeat, then the address and port of the gossip source, or \<^verbatim>\<open>ipLen + 2\<close> bytes
  skipped when there is none. Returns the buffer and the cursor.
\<close>

definition encodeMember ::
  "nat \<Rightarrow> messageMember \<Rightarrow> byte list \<Rightarrow> nat \<Rightarrow> (byte list \<times> nat) option" where
  "encodeMember ipLen member buf p = do {
     (buf, n) \<leftarrow> encodeByte (status member) buf p;
     let p = p + n;
     mnode \<leftarrow> node member;
     buf \<leftarrow> copyIP ipLen (ipBytes ipLen (ip mnode)) buf p 0;
     let p = p + ipLen;
     (buf, n) \<leftarrow> encodeUint16 (port mnode) buf p;
     let p = p + n;
     (buf, n) \<leftarrow> encodeUint32 (heartbeat member) buf p;
     let p = p + n;
     (case source member of
        Some snode \<Rightarrow> do {
          buf \<leftarrow> copyIP ipLen (ipBytes ipLen (ip snode)) buf p 0;
          let p = p + ipLen;
          (buf, n) \<leftarrow> encodeUint16 (port snode) buf p;
          Some (buf, p + n)
        }
      | None \<Rightarrow> Some (buf, p + (ipLen + 2)))
   }"

fun encodeMembers ::
  "nat \<Rightarrow> messageMember list \<Rightarrow> byte list \<Rightarrow> nat \<Rightarrow> (byte list \<times> nat) option" where
  "encodeMembers ipLen [] buf p = Some (buf, p)"
| "encodeMembers ipLen (member # rest) buf p = do {
     (buf, p) \<leftarrow> encodeMember ipLen member buf p;
     encodeMembers ipLen rest buf p
   }"

text \<open>The loop \<^verbatim>\<open>for i, v := range bbytes { bytes[p+i] = v }\<close>.\<close>

fun copyBroadcast :: "byte list \<Rightarrow> byte list \<Rightarrow> nat \<Rightarrow> byte list option" where
  "copyBroadcast [] buf q = Some buf"
| "copyBroadcast (v # rest) buf q =
     (if q < length buf then copyBroadcast rest (buf[q := v]) (Suc q) else None)"

definition encode :: "nat \<Rightarrow> message \<Rightarrow> byte list option" where
  "encode ipLen m =
     (let size = 11 + length (members m) * (9 + ipLen + ipLen);
          size = (case broadcast m of
                    None \<Rightarrow> size
                  | Some b \<Rightarrow> size + (8 + ipLen + length (bytes b)));
          buf = replicate size (0 :: byte);
          p = 4;
          verbByte = (word_of_nat (length (members m)) :: byte);
          verbByte = push_bit 2 verbByte OR verb m
      in do {
        (buf, n) \<leftarrow> encodeByte verbByte buf p;
        let p = p + n;
        s \<leftarrow> sender m;
        (buf, n) \<leftarrow> encodeUint16 (port s) buf p;
        let p = p + n;
        (buf, n) \<leftarrow> encodeUint32 (senderHeartbeat m) buf p;
        let p = p + n;
        (buf, p) \<leftarrow> encodeMembers ipLen (members m) buf p;
        buf \<leftarrow> (case broadcast m of
                  None \<Rightarrow> Some buf
                | Some b \<Rightarrow> do {
                    bbytes \<leftarrow> Broadcast_encode ipLen b;
                    copyBroadcast bbytes buf p
                  });
        let checksum = adler32 (drop 4 buf);
        (buf, n) \<leftarrow> encodeUint32 checksum buf 0;
        Some buf
      })"

subsection \<open>Message decode\<close>

text \<open>
  The body of the loop of \<^verbatim>\<open>decodeMembers\<close>: one member read at the cursor. Both
  \<^verbatim>\<open>len(mip) > 0\<close> and \<^verbatim>\<open>len(sip) > 0\<close> are tested as in the source.
\<close>

definition decodeMember ::
  "nat \<Rightarrow> directory \<Rightarrow> slice \<Rightarrow> nat \<Rightarrow> (messageMember \<times> nat) option" where
  "decodeMember ipLen d s p = do {
     mstatus \<leftarrow> at (elems s) p;
     let p = p + 1;
     mip \<leftarrow> readIP ipLen s p;
     let p = p + ipLen;
     (mport, p) \<leftarrow> decodeUint16 (elems s) p;
     (mcode, p) \<leftarrow> decodeUint32 (elems s) p;
     let mnode = (if length mip > 0 then lookupOrCreate d mip mport else None);
     sip \<leftarrow> readIP ipLen s p;
     let p = p + ipLen;
     (sport, p) \<leftarrow> decodeUint16 (elems s) p;
     let snode = (if length sip > 0 then lookupOrCreate d sip sport else None);
     Some (\<lparr>source = snode, heartbeat = mcode, node = mnode, status = mstatus\<rparr>, p)
   }"

text \<open>
  The loop \<^verbatim>\<open>for p < len(bytes)\<close> of \<^verbatim>\<open>decodeMembers\<close>, with the cursor and the
  members decoded so far.
\<close>

function decodeMembers_loop ::
  "nat \<Rightarrow> directory \<Rightarrow> slice \<Rightarrow> nat \<Rightarrow> messageMember list \<Rightarrow> messageMember list option" where
  "decodeMembers_loop ipLen d s p ms =
     (if p < length (elems s) then
        (case decodeMember ipLen d s p of
           None \<Rightarrow> None
         | Some (member, p') \<Rightarrow> decodeMembers_loop ipLen d s p' (ms @ [member]))
      else Some ms)"
  by pat_completeness auto
termination
proof (relation "measure (\<lambda>(ipLen, d, s, p, ms). length (elems s) - p)")
  fix ipLen d s p ms x2 x y
  assume "p < length (elems s)" and "decodeMember ipLen d s p = Some x2" and "(x, y) = x2"
  then have "decodeMember ipLen d s p = Some (x, y)"
    by simp
  then have "y = p + 9 + ipLen + ipLen"
    by (auto simp: decodeMember_def decodeUint16_def decodeUint32_def Let_def
             split: Option.bind_splits if_splits)
  with \<open>p < length (elems s)\<close>
  show "((ipLen, d, s, y, ms @ [x]), ipLen, d, s, p, ms)
          \<in> measure (\<lambda>(ipLen, d, s, p, ms). length (elems s) - p)"
    by simp
qed simp

declare decodeMembers_loop.simps [simp del]

text \<open>\<^verbatim>\<open>decodeMembers\<close>: the count is a parameter that the body never reads.\<close>

definition decodeMembers ::
  "nat \<Rightarrow> directory \<Rightarrow> nat \<Rightarrow> slice \<Rightarrow> messageMember list option" where
  "decodeMembers ipLen d memberCount s = decodeMembers_loop ipLen d s 0 []"

definition decodeMessage ::
  "nat \<Rightarrow> directory \<Rightarrow> IP \<Rightarrow> slice \<Rightarrow> (message \<times> error option) option" where
  "decodeMessage ipLen d sourceIP s = do {
     (checksumStated, p) \<leftarrow> decodeUint32 (elems s) 0;
     body \<leftarrow> resliceFrom s 4;
     let checksumCalculated = adler32 (elems body);
     if checksumCalculated \<noteq> checksumStated
     then Some (newMessage 255 None 0, Some (ChecksumFailure sourceIP))
     else do {
       (v, p) \<leftarrow> decodeByte (elems s) p;
       let verb = v AND 0x03;
       let memberCount = unat (drop_bit 2 v);
       (senderPort, p) \<leftarrow> decodeUint16 (elems s) p;
       (senderHeartbeat, p) \<leftarrow> decodeUint32 (elems s) p;
       let sender = lookupOrCreate d sourceIP senderPort;
       let m = newMessage verb sender senderHeartbeat;
       let memberLastIndex = p + memberCount * (9 + ipLen + ipLen);
       m \<leftarrow> (if length (elems s) > p then do {
               t \<leftarrow> reslice s p memberLastIndex;
               ms \<leftarrow> decodeMembers ipLen d memberCount t;
               Some (m\<lparr>members := ms\<rparr>)
             } else Some m);
       (if length (elems s) > memberLastIndex then do {
          t \<leftarrow> resliceFrom s memberLastIndex;
          (b, err) \<leftarrow> decodeBroadcast ipLen d t;
          Some (m\<lparr>broadcast := b\<rparr>, err)
        } else Some (m, None))
     }
   }"

section \<open>Definitions used by the statements\<close>

text \<open>
  Modelled from the spec: a node directory for the concrete instances below. It knows
  no node, and creates a transient node from the address and port alone (section 3 of
  the spec).
\<close>

definition emptyDirectory :: directory where
  "emptyDirectory =
     \<lparr>getByIP = (\<lambda>a pt. None), CreateNodeByIP = (\<lambda>a pt. Some \<lparr>ip = a, port = pt\<rparr>)\<rparr>"

text \<open>A member gossiping that 10.0.0.2:7946 is alive at heartbeat 5, with no source.\<close>

definition aliveMember :: messageMember where
  "aliveMember =
     \<lparr>source = None, heartbeat = 5, node = Some \<lparr>ip = [10, 0, 0, 2], port = 7946\<rparr>,
      status = StatusAlive\<rparr>"

text \<open>The first member of a ping request: the node to probe.\<close>

definition forwardMember :: messageMember where
  "forwardMember =
     \<lparr>source = None, heartbeat = 5, node = Some \<lparr>ip = [10, 0, 0, 2], port = 7946\<rparr>,
      status = StatusForwardTo\<rparr>"

subsection \<open>The wire layout, as a function of the message\<close>

text \<open>
  The bytes that the message layout of message.go prescribes, written as list
  expressions. They are what the properties below compare the imperative \<^verbatim>\<open>encode\<close>
  with. \<open>be16\<close> and \<open>be32\<close> are the big-endian bytes of a value.
\<close>

definition be16 :: "uint16 \<Rightarrow> byte list" where
  "be16 v = [ucast (drop_bit 8 v), ucast v]"

definition be32 :: "uint32 \<Rightarrow> byte list" where
  "be32 v = [ucast (drop_bit 24 v), ucast (drop_bit 16 v), ucast (drop_bit 8 v), ucast v]"

text \<open>A buffer with the bytes \<open>xs\<close> written from offset \<open>p\<close>.\<close>

definition overwrite :: "'a list \<Rightarrow> nat \<Rightarrow> 'a list \<Rightarrow> 'a list" where
  "overwrite buf p xs = take p buf @ xs @ drop (p + length xs) buf"

text \<open>
  A node that \<^verbatim>\<open>encode\<close> can write: it is present and its address has a form of the
  active family. A member needs such a node; its source may be absent.
\<close>

definition nodeOK :: "nat \<Rightarrow> Node option \<Rightarrow> bool" where
  "nodeOK ipLen n = (case n of None \<Rightarrow> False | Some x \<Rightarrow> ipLen \<le> length (ipBytes ipLen (ip x)))"

definition memberOK :: "nat \<Rightarrow> messageMember \<Rightarrow> bool" where
  "memberOK ipLen mm = (nodeOK ipLen (node mm) \<and> (source mm = None \<or> nodeOK ipLen (source mm)))"

text \<open>
  The slot of one member: status, address, port, heartbeat, then the address and port of
  the source, or \<open>ipLen + 2\<close> zero bytes.
\<close>

definition memberBytes :: "nat \<Rightarrow> messageMember \<Rightarrow> byte list" where
  "memberBytes ipLen mm =
     [status mm] @
     (case node mm of None \<Rightarrow> [] | Some n \<Rightarrow> take ipLen (ipBytes ipLen (ip n)) @ be16 (port n)) @
     be32 (heartbeat mm) @
     (case source mm of None \<Rightarrow> replicate (ipLen + 2) 0
      | Some sn \<Rightarrow> take ipLen (ipBytes ipLen (ip sn)) @ be16 (port sn))"

text \<open>The buffer holds only zero bytes from offset \<open>p\<close> on.\<close>

definition zeroFrom :: "byte list \<Rightarrow> nat \<Rightarrow> bool" where
  "zeroFrom buf p = (drop p buf = replicate (length buf - p) 0)"

text \<open>The broadcast section, the packed byte, the datagram after its checksum, the datagram.\<close>

definition broadcastBytes :: "nat \<Rightarrow> Broadcast \<Rightarrow> byte list" where
  "broadcastBytes ipLen b =
     (case origin b of None \<Rightarrow> []
      | Some n \<Rightarrow> take ipLen (ipBytes ipLen (ip n)) @ be16 (port n) @ be32 (index b) @
          be16 (word_of_nat (length (bytes b))) @ bytes b)"

definition packedByte :: "message \<Rightarrow> byte" where
  "packedByte m = push_bit 2 (word_of_nat (length (members m))) OR verb m"

definition wireBody :: "nat \<Rightarrow> message \<Rightarrow> byte list" where
  "wireBody ipLen m =
     [packedByte m] @
     (case sender m of None \<Rightarrow> [] | Some s \<Rightarrow> be16 (port s)) @
     be32 (senderHeartbeat m) @
     concat (map (memberBytes ipLen) (members m)) @
     (case broadcast m of None \<Rightarrow> [] | Some b \<Rightarrow> broadcastBytes ipLen b)"

definition wire :: "nat \<Rightarrow> message \<Rightarrow> byte list" where
  "wire ipLen m = be32 (adler32 (wireBody ipLen m)) @ wireBody ipLen m"

text \<open>The messages on which \<^verbatim>\<open>encode\<close> does not panic.\<close>

definition encodable :: "nat \<Rightarrow> message \<Rightarrow> bool" where
  "encodable ipLen m =
     (sender m \<noteq> None \<and> list_all (memberOK ipLen) (members m) \<and>
      (case broadcast m of None \<Rightarrow> True | Some b \<Rightarrow> nodeOK ipLen (origin b)))"

subsection \<open>Reading the wire layout\<close>

text \<open>The values that the decoder reads at an offset of a buffer that is long enough.\<close>

definition u16At :: "byte list \<Rightarrow> nat \<Rightarrow> uint16" where
  "u16At bs q = push_bit 8 (ucast (bs ! q)) OR ucast (bs ! (q + 1))"

definition u32At :: "byte list \<Rightarrow> nat \<Rightarrow> uint32" where
  "u32At bs q = push_bit 24 (ucast (bs ! q)) OR push_bit 16 (ucast (bs ! (q + 1))) OR
                push_bit 8 (ucast (bs ! (q + 2))) OR ucast (bs ! (q + 3))"

definition ipAt :: "nat \<Rightarrow> byte list \<Rightarrow> nat \<Rightarrow> IP" where
  "ipAt ipLen bs q =
     (if ipLen = 16 then take 16 (drop q bs)
      else IPv4 (bs ! q) (bs ! (q + 1)) (bs ! (q + 2)) (bs ! (q + 3)))"

definition memberAt :: "nat \<Rightarrow> directory \<Rightarrow> byte list \<Rightarrow> nat \<Rightarrow> messageMember" where
  "memberAt ipLen d bs q =
     \<lparr>source = lookupOrCreate d (ipAt ipLen bs (q + 7 + ipLen)) (u16At bs (q + 7 + ipLen + ipLen)),
      heartbeat = u32At bs (q + 3 + ipLen),
      node = lookupOrCreate d (ipAt ipLen bs (q + 1)) (u16At bs (q + 1 + ipLen)),
      status = bs ! q\<rparr>"

text \<open>
  What the decoder makes of an encoded member, broadcast and message: every node is
  replaced by what the directory returns for its 16-byte address and its port, the sender
  by what it returns for the source address of the datagram. The zero bytes of an absent
  source are read as the all-zero address and port 0.
\<close>

definition zeroIP :: "nat \<Rightarrow> IP" where
  "zeroIP ipLen = (if ipLen = 16 then replicate 16 0 else IPv4 0 0 0 0)"

definition decodedMember :: "nat \<Rightarrow> directory \<Rightarrow> messageMember \<Rightarrow> messageMember" where
  "decodedMember ipLen d mm =
     \<lparr>source = (case source mm of
                  None \<Rightarrow> lookupOrCreate d (zeroIP ipLen) 0
                | Some sn \<Rightarrow> lookupOrCreate d (To16 (ip sn)) (port sn)),
      heartbeat = heartbeat mm,
      node = (case node mm of
                None \<Rightarrow> None
              | Some n \<Rightarrow> lookupOrCreate d (To16 (ip n)) (port n)),
      status = status mm\<rparr>"

definition decodedBroadcast :: "directory \<Rightarrow> Broadcast \<Rightarrow> Broadcast" where
  "decodedBroadcast d b =
     \<lparr>origin = (case origin b of None \<Rightarrow> None
                | Some n \<Rightarrow> lookupOrCreate d (To16 (ip n)) (port n)),
      index = index b, bytes = bytes b\<rparr>"

definition decodedMessage :: "nat \<Rightarrow> directory \<Rightarrow> IP \<Rightarrow> message \<Rightarrow> message" where
  "decodedMessage ipLen d sourceIP m =
     \<lparr>sender = (case sender m of None \<Rightarrow> None
                | Some s \<Rightarrow> lookupOrCreate d sourceIP (port s)),
      senderHeartbeat = senderHeartbeat m,
      verb = verb m,
      members = map (decodedMember ipLen d) (members m),
      broadcast = map_option (decodedBroadcast d) (broadcast m)\<rparr>"

text \<open>
  A well-formed message: encodable, one of the four verbs, at most 63 members, and a
  broadcast payload whose length fits the 2-byte length field.
\<close>

definition wellFormed :: "nat \<Rightarrow> message \<Rightarrow> bool" where
  "wellFormed ipLen m =
     (encodable ipLen m \<and> verb m < 4 \<and> length (members m) \<le> 63 \<and>
      (case broadcast m of None \<Rightarrow> True | Some b \<Rightarrow> length (bytes b) < 65536))"

subsection \<open>Concrete messages\<close>

text \<open>A ping from 10.0.0.1:7946 at heartbeat 42, a member with a source, a broadcast.\<close>

definition pingMessage :: message where
  "pingMessage =
     \<lparr>sender = Some \<lparr>ip = [10, 0, 0, 1], port = 7946\<rparr>, senderHeartbeat = 42,
      verb = verbPing, members = [], broadcast = None\<rparr>"

definition sourcedMember :: messageMember where
  "sourcedMember =
     \<lparr>source = Some \<lparr>ip = [10, 0, 0, 3], port = 7946\<rparr>, heartbeat = 5,
      node = Some \<lparr>ip = [10, 0, 0, 2], port = 7946\<rparr>, status = StatusAlive\<rparr>"

definition exampleBroadcast :: Broadcast where
  "exampleBroadcast =
     \<lparr>origin = Some \<lparr>ip = [10, 0, 0, 1], port = 7946\<rparr>, index = 3, bytes = [1, 2, 3]\<rparr>"

text \<open>An acknowledgement with five members, and a member whose status byte is no known ordinal.\<close>

definition ackMessage :: message where
  "ackMessage = pingMessage\<lparr>verb := verbAck, members := replicate 5 aliveMember\<rparr>"


section \<open>Properties\<close>

subsection \<open>Building a message\<close>

text \<open>
  Claim C4. A message that holds 63 members refuses one more with the member list
  overflow error and is unchanged by the refused call; a message that holds fewer than
  63 members accepts the member, which becomes its last one, and no error is returned.
\<close>

theorem addMember_cap:
  "(length (members m) = 63 \<longrightarrow> addMember m n st hb src = (m, Some MemberListOverflow)) \<and>
   (length (members m) < 63 \<longrightarrow>
      addMember m n st hb src =
        (m\<lparr>members := members m @ [\<lparr>source = src, heartbeat = hb, node = n, status = st\<rparr>]\<rparr>,
         None))"
  by (auto simp: addMember_def)

theorem addMember_cap_witness:
  "addMember ((newMessage verbPing None 0)\<lparr>members := replicate 63 aliveMember\<rparr>)
      None StatusDead 9 None =
     ((newMessage verbPing None 0)\<lparr>members := replicate 63 aliveMember\<rparr>,
      Some MemberListOverflow) \<and>
   addMember (newMessage verbPing None 0) None StatusDead 9 None =
     ((newMessage verbPing None 0)
        \<lparr>members := members (newMessage verbPing None 0) @
           [\<lparr>source = None, heartbeat = 9, node = None, status = StatusDead\<rparr>]\<rparr>,
      None)"
proof -
  have full: "length (members ((newMessage verbPing None 0)\<lparr>members := replicate 63 aliveMember\<rparr>)) = 63"
    by simp
  have room: "length (members (newMessage verbPing None 0)) < 63"
    by (simp add: newMessage_def)
  show ?thesis
    using addMember_cap [of "(newMessage verbPing None 0)\<lparr>members := replicate 63 aliveMember\<rparr>"
                            None StatusDead 9 None]
          addMember_cap [of "newMessage verbPing None 0" None StatusDead 9 None]
          full room
    by blast
qed

subsection \<open>The forward-to member\<close>

text \<open>
  Claim C3, as the code has it. \<^verbatim>\<open>getForwardTo\<close> never reads the verb: for a message
  with at least one member it returns a member exactly when the first member's status
  is the forward-to status, and then it returns that first member; for a message with
  no members it returns nothing; and changing the verb of a message does not change
  the result.
\<close>

theorem getForwardTo_first_member:
  "(members m \<noteq> [] \<longrightarrow>
      (getForwardTo m \<noteq> None \<longleftrightarrow> status (members m ! 0) = StatusForwardTo)) \<and>
   (members m = [] \<longrightarrow> getForwardTo m = None) \<and>
   (getForwardTo m \<noteq> None \<longrightarrow> getForwardTo m = Some (members m ! 0)) \<and>
   getForwardTo (m\<lparr>verb := v\<rparr>) = getForwardTo m"
  by (simp add: getForwardTo_def)

theorem getForwardTo_first_member_witness:
  "members ((newMessage verbPingRequest None 0)\<lparr>members := [forwardMember, aliveMember]\<rparr>) \<noteq> [] \<and>
   status (members ((newMessage verbPingRequest None 0)\<lparr>members := [forwardMember, aliveMember]\<rparr>) ! 0)
     = StatusForwardTo \<and>
   getForwardTo ((newMessage verbPingRequest None 0)\<lparr>members := [forwardMember, aliveMember]\<rparr>)
     = Some forwardMember \<and>
   members (newMessage verbPingRequest None 0) = [] \<and>
   getForwardTo (newMessage verbPingRequest None 0) = None"
proof -
  have first: "status (members ((newMessage verbPingRequest None 0)\<lparr>members := [forwardMember, aliveMember]\<rparr>) ! 0)
                 = StatusForwardTo"
    by (simp add: forwardMember_def)
  have none: "members (newMessage verbPingRequest None 0) = []"
    by (simp add: newMessage_def)
  show ?thesis
    using getForwardTo_first_member
            [of "(newMessage verbPingRequest None 0)\<lparr>members := [forwardMember, aliveMember]\<rparr>"]
          getForwardTo_first_member [of "newMessage verbPingRequest None 0"]
          first none
    by auto
qed

text \<open>
  The claim as the spec states it fails: a message whose verb is a plain ping and whose
  first member carries the forward-to status still yields that member.
\<close>

theorem getForwardTo_ignores_verb:
  "verb ((newMessage verbPing None 0)\<lparr>members := [forwardMember]\<rparr>) \<noteq> verbPingRequest \<and>
   getForwardTo ((newMessage verbPing None 0)\<lparr>members := [forwardMember]\<rparr>) = Some forwardMember"
  by (simp add: getForwardTo_def newMessage_def forwardMember_def verbPing_def
        verbPingRequest_def)

subsection \<open>Datagrams that fail the checksum\<close>

lemma resliceFrom_4:
  "4 \<le> length (elems s) \<Longrightarrow>
   resliceFrom s 4 = Some \<lparr>elems = drop 4 (elems s), spare = spare s\<rparr>"
  by (simp add: resliceFrom_def reslice_def)

text \<open>
  Claim C10. When the checksum stated in the first four bytes differs from the checksum
  of the rest of the datagram, \<^verbatim>\<open>decodeMessage\<close> returns the checksum error together
  with a message that carries nothing of the datagram: verb 255, which is none of the
  four verbs, no sender, heartbeat 0, no members and no broadcast.
\<close>

theorem decodeMessage_checksum_failure_message:
  assumes "decodeUint32 (elems s) 0 = Some (stated, p)"
    and "adler32 (drop 4 (elems s)) \<noteq> stated"
  shows "decodeMessage ipLen d sourceIP s =
           Some (\<lparr>sender = None, senderHeartbeat = 0, verb = 255, members = [],
                  broadcast = None\<rparr>,
                 Some (ChecksumFailure sourceIP)) \<and>
         (255 :: messageVerb) \<notin> {verbPing, verbAck, verbPingRequest, verbNonForwardingPing}"
  using assms
  by (auto simp: decodeMessage_def decodeUint32_def resliceFrom_4 newMessage_def
        verbPing_def verbAck_def verbPingRequest_def verbNonForwardingPing_def
      split: if_splits)

theorem decodeMessage_checksum_failure_message_witness:
  "decodeUint32 (elems \<lparr>elems = [0, 0, 0, 0, 0, 0x1f, 0x0a, 0, 0, 0, 42], spare = []\<rparr>) 0
     = Some (0, 4) \<and>
   adler32 (drop 4 (elems \<lparr>elems = [0, 0, 0, 0, 0, 0x1f, 0x0a, 0, 0, 0, 42], spare = []\<rparr>)) \<noteq> 0 \<and>
   decodeMessage 4 emptyDirectory [10, 0, 0, 1]
       \<lparr>elems = [0, 0, 0, 0, 0, 0x1f, 0x0a, 0, 0, 0, 42], spare = []\<rparr> =
     Some (\<lparr>sender = None, senderHeartbeat = 0, verb = 255, members = [], broadcast = None\<rparr>,
           Some (ChecksumFailure [10, 0, 0, 1]))"
proof -
  have stated: "decodeUint32 (elems \<lparr>elems = [0, 0, 0, 0, 0, 0x1f, 0x0a, 0, 0, 0, 42], spare = []\<rparr>) 0
                  = Some (0, 4)"
    by (simp add: decodeUint32_def)
  have differs: "adler32 (drop 4 (elems \<lparr>elems = [0, 0, 0, 0, 0, 0x1f, 0x0a, 0, 0, 0, 42], spare = []\<rparr>)) \<noteq> 0"
    by (simp add: adler32_def adler32_step_def)
  show ?thesis
    using decodeMessage_checksum_failure_message [OF stated differs, of 4 emptyDirectory "[10, 0, 0, 1]"]
          stated differs
    by blast
qed

subsection \<open>Datagrams shorter than they declare\<close>

text \<open>A datagram of fewer than four bytes makes \<^verbatim>\<open>decodeMessage\<close> panic.\<close>

lemma decodeMessage_short_panics:
  "length (elems s) < 4 \<Longrightarrow> decodeMessage ipLen d sourceIP s = None"
  by (simp add: decodeMessage_def decodeUint32_def)

text \<open>
  Claim C2 at a failing input. The 28-byte IPv4 datagram below has a correct checksum,
  declares two members in its packed byte (0x08) and holds the bytes of one. Held in a
  slice whose capacity is its length, it makes \<^verbatim>\<open>decodeMessage\<close> panic at the slice
  expression \<^verbatim>\<open>bytes[p:memberLastIndex]\<close>, whatever the directory and the source
  address: no error is returned.
\<close>

theorem decodeMessage_short_member_block_panics:
  "decodeMessage 4 d sourceIP
     \<lparr>elems = [0x0a, 0xce, 0x00, 0xcd, 0x08, 0x1f, 0x0a, 0, 0, 0, 42,
               1, 10, 0, 0, 2, 0x1f, 0x0a, 0, 0, 0, 5, 10, 0, 0, 3, 0x1f, 0x0a],
      spare = []\<rparr> = None"
  by (simp add: decodeMessage_def decodeUint32_def decodeUint16_def decodeByte_def
        resliceFrom_def reslice_def adler32_def adler32_step_def)

text \<open>
  Held in a slice with spare capacity, as in a receive buffer that is re-sliced to the
  length of the datagram, the same datagram makes \<^verbatim>\<open>decodeMessage\<close> return two members
  and no error: the second member is read from the bytes behind the datagram.
\<close>

lemma replicate_17: "replicate 17 x = [x, x, x, x, x, x, x, x, x, x, x, x, x, x, x, x, x]"
  by (simp add: numeral_eq_Suc)

lemma decodeMessage_short_member_block_spare:
  "\<exists>m. decodeMessage 4 emptyDirectory [10, 0, 0, 1]
     \<lparr>elems = [0x0a, 0xce, 0x00, 0xcd, 0x08, 0x1f, 0x0a, 0, 0, 0, 42,
               1, 10, 0, 0, 2, 0x1f, 0x0a, 0, 0, 0, 5, 10, 0, 0, 3, 0x1f, 0x0a],
      spare = replicate 17 7\<rparr> = Some (m, None) \<and> length (members m) = 2"
  by (simp add: decodeMessage_def decodeUint32_def decodeUint16_def decodeByte_def
        resliceFrom_def reslice_def adler32_def adler32_step_def decodeMembers_def
        decodeMembers_loop.simps decodeMember_def at_def readIP_def Let_def newMessage_def
        replicate_17)

subsection \<open>Writes into the buffer\<close>

lemma length_overwrite: "p + length xs \<le> length buf \<Longrightarrow> length (overwrite buf p xs) = length buf"
  by (simp add: overwrite_def)

lemma overwrite_Nil: "overwrite buf p [] = buf"
  by (simp add: overwrite_def)

lemma update_overwrite: "p < length buf \<Longrightarrow> buf[p := v] = overwrite buf p [v]"
  by (simp add: overwrite_def upd_conv_take_nth_drop)

lemma overwrite_overwrite:
  assumes "p + length xs + length ys \<le> length buf"
  shows "overwrite (overwrite buf p xs) (p + length xs) ys = overwrite buf p (xs @ ys)"
proof -
  have "p \<le> length buf"
    using assms by simp
  then have "length (take p buf) = p"
    by simp
  then show ?thesis
    using assms by (simp add: overwrite_def ac_simps)
qed

lemma drop_overwrite:
  "p + length xs \<le> q \<Longrightarrow> p + length xs \<le> length buf \<Longrightarrow> drop q (overwrite buf p xs) = drop q buf"
  by (simp add: overwrite_def min_def)

lemma encodeByte_overwrite:
  "encodeByte v buf p = (if p < length buf then Some (overwrite buf p [v], 1) else None)"
  by (simp add: encodeByte_def update_overwrite)

lemma encodeUint16_overwrite:
  "encodeUint16 v buf p = (if p + 2 \<le> length buf then Some (overwrite buf p (be16 v), 2) else None)"
proof (cases "p + 2 \<le> length buf")
  case True
  then have "buf[p := a, p + 1 := b] = overwrite buf p [a, b]" for a b
    using overwrite_overwrite [of p "[a]" "[b]" buf]
    by (simp add: update_overwrite length_overwrite)
  with True show ?thesis
    by (simp add: encodeUint16_def be16_def)
next
  case False
  then show ?thesis by (simp add: encodeUint16_def)
qed

lemma encodeUint32_overwrite:
  "encodeUint32 v buf p = (if p + 4 \<le> length buf then Some (overwrite buf p (be32 v), 4) else None)"
proof (cases "p + 4 \<le> length buf")
  case True
  have "buf[p := a, p + 1 := b, p + 2 := c, p + 3 := e] = overwrite buf p [a, b, c, e]" for a b c e
  proof -
    have 1: "buf[p := a] = overwrite buf p [a]"
      using True by (simp add: update_overwrite)
    have 2: "(overwrite buf p [a])[p + 1 := b] = overwrite buf p [a, b]"
      using True overwrite_overwrite [of p "[a]" "[b]" buf] by (simp add: update_overwrite length_overwrite)
    have 3: "(overwrite buf p [a, b])[p + 2 := c] = overwrite buf p [a, b, c]"
      using True overwrite_overwrite [of p "[a, b]" "[c]" buf]
      by (simp add: update_overwrite length_overwrite eval_nat_numeral)
    have 4: "(overwrite buf p [a, b, c])[p + 3 := e] = overwrite buf p [a, b, c, e]"
      using True overwrite_overwrite [of p "[a, b, c]" "[e]" buf]
      by (simp add: update_overwrite length_overwrite eval_nat_numeral)
    show ?thesis by (simp only: 1 2 3 4)
  qed
  with True show ?thesis
    by (simp add: encodeUint32_def be32_def)
next
  case False
  then show ?thesis by (simp add: encodeUint32_def)
qed

lemma copyBroadcast_overwrite:
  "copyBroadcast xs buf q =
     (if xs = [] \<or> q + length xs \<le> length buf then Some (overwrite buf q xs) else None)"
proof (induction xs arbitrary: buf q)
  case Nil
  then show ?case by (simp add: overwrite_Nil)
next
  case (Cons v rest)
  show ?case
  proof (cases "q < length buf")
    case True
    have "overwrite (overwrite buf q [v]) (Suc q) rest = overwrite buf q (v # rest)"
      if "q + length (v # rest) \<le> length buf"
      using that overwrite_overwrite [of q "[v]" rest buf] by simp
    with True show ?thesis
      by (auto simp: Cons.IH update_overwrite length_overwrite overwrite_Nil)
  next
    case False
    then show ?thesis by simp
  qed
qed

lemma copyIP_overwrite:
  "i \<le> ipLen \<Longrightarrow> copyIP ipLen ipb buf p i =
     (if i = ipLen then Some buf
      else if ipLen \<le> length ipb \<and> p + ipLen \<le> length buf
      then Some (overwrite buf (p + i) (take (ipLen - i) (drop i ipb)))
      else None)"
proof (induction ipLen ipb buf p i rule: copyIP.induct)
  case (1 ipLen ipb buf p i)
  show ?case
  proof (cases "i < ipLen")
    case False
    with "1.prems" show ?thesis by (subst copyIP.simps) simp
  next
    case lt: True
    show ?thesis
    proof (cases "i < length ipb \<and> p + i < length buf")
      case False
      with lt show ?thesis by (subst copyIP.simps) auto
    next
      case ok: True
      have step: "copyIP ipLen ipb buf p i = copyIP ipLen ipb (buf[p + i := ipb ! i]) p (Suc i)"
        using lt ok by (subst copyIP.simps) simp
      have ih: "copyIP ipLen ipb (buf[p + i := ipb ! i]) p (Suc i) =
                  (if Suc i = ipLen then Some (buf[p + i := ipb ! i])
                   else if ipLen \<le> length ipb \<and> p + ipLen \<le> length buf
                   then Some (overwrite (buf[p + i := ipb ! i]) (p + Suc i) (take (ipLen - Suc i) (drop (Suc i) ipb)))
                   else None)"
        using "1.IH" [OF lt ok] lt by simp
      show ?thesis
      proof (cases "ipLen \<le> length ipb \<and> p + ipLen \<le> length buf")
        case False
        with lt ok step ih show ?thesis by auto
      next
        case fit: True
        have td: "take (ipLen - i) (drop i ipb) = ipb ! i # take (ipLen - Suc i) (drop (Suc i) ipb)"
          using lt ok fit
          by (metis Cons_nth_drop_Suc Suc_diff_Suc take_Suc_Cons)
        have "overwrite (overwrite buf (p + i) [ipb ! i]) (p + i + length [ipb ! i]) (take (ipLen - Suc i) (drop (Suc i) ipb))
                = overwrite buf (p + i) ([ipb ! i] @ take (ipLen - Suc i) (drop (Suc i) ipb))"
        proof (rule overwrite_overwrite)
          have "length (take (ipLen - Suc i) (drop (Suc i) ipb)) = ipLen - Suc i"
            using lt fit by (auto simp: min_def)
          then show "p + i + length [ipb ! i] + length (take (ipLen - Suc i) (drop (Suc i) ipb))
                       \<le> length buf"
            using lt fit by simp
        qed
        then show ?thesis
          using lt ok fit step ih td by (auto simp: update_overwrite overwrite_Nil)
      qed
    qed
  qed
qed

lemma length_be16 [simp]: "length (be16 v) = 2" by (simp add: be16_def)

lemma length_be32 [simp]: "length (be32 v) = 4" by (simp add: be32_def)

lemma length_memberBytes:
  "memberOK ipLen mm \<Longrightarrow> length (memberBytes ipLen mm) = 9 + ipLen + ipLen"
  by (auto simp: memberOK_def nodeOK_def memberBytes_def split: option.splits)

lemma copyIP_0:
  "copyIP ipLen ipb buf p 0 =
     (if ipLen \<le> length ipb \<and> (ipLen = 0 \<or> p + ipLen \<le> length buf)
      then Some (overwrite buf p (take ipLen ipb)) else None)"
  using copyIP_overwrite [of 0 ipLen ipb buf p]
  by (auto simp: overwrite_Nil)

lemma zeroFrom_drop:
  assumes "zeroFrom buf p"
  shows "drop (p + n) buf = replicate (length buf - (p + n)) 0"
proof -
  have "drop (p + n) buf = drop n (drop p buf)"
    by (simp add: add.commute)
  also have "\<dots> = drop n (replicate (length buf - p) 0)"
    using assms by (simp add: zeroFrom_def)
  finally show ?thesis
    by simp
qed

lemma overwrite_zeros:
  assumes "zeroFrom buf p" and "p + length xs + k \<le> length buf"
  shows "overwrite buf p (xs @ replicate k 0) = overwrite buf p xs"
proof -
  have "replicate (length buf - (p + length xs)) (0 :: byte)
          = replicate (k + (length buf - (p + (length xs + k)))) 0"
    using assms(2) by simp
  then have split: "replicate (length buf - (p + length xs)) (0 :: byte)
          = replicate k 0 @ replicate (length buf - (p + (length xs + k))) 0"
    by (simp only: replicate_add)
  have "overwrite buf p (xs @ replicate k 0)
          = take p buf @ xs @ replicate k 0 @ drop (p + (length xs + k)) buf"
    by (simp add: overwrite_def)
  also have "\<dots> = take p buf @ xs @ replicate k 0 @ replicate (length buf - (p + (length xs + k))) 0"
    by (simp only: zeroFrom_drop [OF assms(1)])
  also have "\<dots> = take p buf @ xs @ drop (p + length xs) buf"
    by (simp only: zeroFrom_drop [OF assms(1)] split)
  finally show ?thesis
    by (simp add: overwrite_def)
qed

lemma zeroFrom_overwrite:
  assumes "zeroFrom buf p" and "p + length xs \<le> length buf"
  shows "zeroFrom (overwrite buf p xs) (p + length xs)"
proof -
  have "drop (p + length xs) (overwrite buf p xs) = drop (p + length xs) buf"
    using assms(2) by (simp add: drop_overwrite)
  then show ?thesis
    using assms by (simp add: zeroFrom_def length_overwrite zeroFrom_drop)
qed

lemma ow2:
  "q = p + length xs \<Longrightarrow> q + length ys \<le> length buf \<Longrightarrow>
   overwrite (overwrite buf p xs) q ys = overwrite buf p (xs @ ys)"
  using overwrite_overwrite [of p xs ys buf] by simp

subsection \<open>What encode writes\<close>

lemma encodeMember_head:
  fixes f :: "byte list \<Rightarrow> nat \<Rightarrow> (byte list \<times> nat) option"
  assumes fit: "p + (7 + ipLen) \<le> length buf"
    and n: "node mm = Some n"
    and nok: "ipLen \<le> length (ipBytes ipLen (ip n))"
  shows "do {
       (buf, k) \<leftarrow> encodeByte (status mm) buf p;
       let p = p + k;
       mnode \<leftarrow> node mm;
       buf \<leftarrow> copyIP ipLen (ipBytes ipLen (ip mnode)) buf p 0;
       let p = p + ipLen;
       (buf, k) \<leftarrow> encodeUint16 (port mnode) buf p;
       let p = p + k;
       (buf, k) \<leftarrow> encodeUint32 (heartbeat mm) buf p;
       let p = p + k;
       f buf p } =
     f (overwrite buf p ([status mm] @ take ipLen (ipBytes ipLen (ip n)) @ be16 (port n) @ be32 (heartbeat mm)))
       (p + (7 + ipLen))"
proof -
  define ipb where "ipb = take ipLen (ipBytes ipLen (ip n))"
  have lipb: "length ipb = ipLen"
    using nok by (simp add: ipb_def)
  define b1 where "b1 = overwrite buf p [status mm]"
  define b2 where "b2 = overwrite buf p ([status mm] @ ipb)"
  define b3 where "b3 = overwrite buf p ([status mm] @ ipb @ be16 (port n))"
  define b4 where "b4 = overwrite buf p ([status mm] @ ipb @ be16 (port n) @ be32 (heartbeat mm))"
  have l1: "length b1 = length buf" and l2: "length b2 = length buf"
    and l3: "length b3 = length buf"
    using fit lipb by (simp_all add: b1_def b2_def b3_def length_overwrite)
  have e1: "encodeByte (status mm) buf p = Some (b1, 1)"
    using fit by (simp add: encodeByte_overwrite b1_def)
  have "overwrite b1 (p + 1) ipb = b2"
    unfolding b1_def b2_def using fit lipb ow2 [of "p + 1" p "[status mm]" ipb buf] by simp
  then have e2: "copyIP ipLen (ipBytes ipLen (ip n)) b1 (p + 1) 0 = Some b2"
    using fit nok l1 by (simp add: copyIP_0 ipb_def)
  have "overwrite b2 (p + 1 + ipLen) (be16 (port n)) = b3"
    unfolding b2_def b3_def
    using fit lipb ow2 [of "p + 1 + ipLen" p "[status mm] @ ipb" "be16 (port n)" buf] by simp
  then have e3: "encodeUint16 (port n) b2 (p + 1 + ipLen) = Some (b3, 2)"
    using fit l2 by (simp add: encodeUint16_overwrite)
  have "overwrite b3 (p + 1 + ipLen + 2) (be32 (heartbeat mm)) = b4"
    unfolding b3_def b4_def
    using fit lipb
      ow2 [of "p + 1 + ipLen + 2" p "[status mm] @ ipb @ be16 (port n)" "be32 (heartbeat mm)" buf]
    by simp
  then have e4: "encodeUint32 (heartbeat mm) b3 (p + 1 + ipLen + 2) = Some (b4, 4)"
    using fit l3 by (simp add: encodeUint32_overwrite)
  have "p + 1 + ipLen + 2 + 4 = p + (7 + ipLen)"
    by simp
  then show ?thesis
    by (simp only: e1 n e2 e3 e4 Option.bind.simps Let_def prod.case option.sel b4_def ipb_def)
qed

lemma encodeMember_wire:
  assumes fit: "p + (9 + ipLen + ipLen) \<le> length buf" and z: "zeroFrom buf p"
  shows "encodeMember ipLen mm buf p =
           (if memberOK ipLen mm
            then Some (overwrite buf p (memberBytes ipLen mm), p + (9 + ipLen + ipLen))
            else None)"
proof (cases "node mm")
  case None
  then show ?thesis
    using fit by (simp add: encodeMember_def encodeByte_overwrite memberOK_def nodeOK_def)
next
  case (Some n)
  note n = this
  show ?thesis
  proof (cases "ipLen \<le> length (ipBytes ipLen (ip n))")
    case False
    then show ?thesis
      using fit n
      by (simp add: encodeMember_def encodeByte_overwrite memberOK_def nodeOK_def copyIP_0
            length_overwrite)
  next
    case nok: True
    define pre where
      "pre = [status mm] @ take ipLen (ipBytes ipLen (ip n)) @ be16 (port n) @ be32 (heartbeat mm)"
    have lpre: "length pre = 7 + ipLen"
      using nok by (simp add: pre_def)
    have fit7: "p + (7 + ipLen) \<le> length buf"
      using fit by simp
    note head = encodeMember_head [OF fit7 n nok, folded pre_def]
    have lb: "length (overwrite buf p pre) = length buf"
      using fit lpre by (simp add: length_overwrite)
    show ?thesis
    proof (cases "source mm")
      case None
      have "overwrite buf p (memberBytes ipLen mm) = overwrite buf p pre"
        using overwrite_zeros [OF z, of pre "ipLen + 2"] fit lpre n None
        by (simp add: memberBytes_def pre_def)
      moreover have "encodeMember ipLen mm buf p
                       = Some (overwrite buf p pre, p + (7 + ipLen) + (ipLen + 2))"
        by (simp only: encodeMember_def head None option.case)
      ultimately show ?thesis
        using n None nok by (simp add: memberOK_def nodeOK_def)
    next
      case (Some sn)
      note sn = this
      have mb: "memberBytes ipLen mm = pre @ take ipLen (ipBytes ipLen (ip sn)) @ be16 (port sn)"
        using n sn by (simp add: memberBytes_def pre_def)
      show ?thesis
      proof (cases "ipLen \<le> length (ipBytes ipLen (ip sn))")
        case False
        then have e5n: "copyIP ipLen (ipBytes ipLen (ip sn)) (overwrite buf p pre) (p + (7 + ipLen)) 0 = None"
          by (simp add: copyIP_0)
        have "encodeMember ipLen mm buf p = None"
          apply (simp only: encodeMember_def head sn option.case)
          apply (simp only: e5n Option.bind.simps)
          done
        then show ?thesis
          using False sn by (simp add: memberOK_def nodeOK_def)
      next
        case sok: True
        define sipb where "sipb = take ipLen (ipBytes ipLen (ip sn))"
        have lsipb: "length sipb = ipLen"
          using sok by (simp add: sipb_def)
        define c1 where "c1 = overwrite buf p (pre @ sipb)"
        have lc1: "length c1 = length buf"
          using fit lpre lsipb by (simp add: c1_def length_overwrite)
        have "overwrite (overwrite buf p pre) (p + (7 + ipLen)) sipb = c1"
          unfolding c1_def using fit lpre lsipb ow2 [of "p + (7 + ipLen)" p pre sipb buf] by simp
        then have e5: "copyIP ipLen (ipBytes ipLen (ip sn)) (overwrite buf p pre) (p + (7 + ipLen)) 0 = Some c1"
          using fit sok lb by (simp add: copyIP_0 sipb_def)
        have "overwrite c1 (p + (7 + ipLen) + ipLen) (be16 (port sn)) = overwrite buf p (memberBytes ipLen mm)"
          unfolding c1_def mb sipb_def [symmetric]
          using fit lpre lsipb ow2 [of "p + (7 + ipLen) + ipLen" p "pre @ sipb" "be16 (port sn)" buf]
          by simp
        then have e6: "encodeUint16 (port sn) c1 (p + (7 + ipLen) + ipLen)
                         = Some (overwrite buf p (memberBytes ipLen mm), 2)"
          using fit lc1 by (simp add: encodeUint16_overwrite)
        have "encodeMember ipLen mm buf p
                = Some (overwrite buf p (memberBytes ipLen mm), p + (7 + ipLen) + ipLen + 2)"
          apply (simp only: encodeMember_def head sn option.case)
          apply (simp only: e5 e6 Option.bind.simps Let_def prod.case)
          done
        then show ?thesis
          using n sn nok sok by (simp add: memberOK_def nodeOK_def)
      qed
    qed
  qed
qed

lemma encodeMembers_wire:
  assumes "p + length ms * (9 + ipLen + ipLen) \<le> length buf" and "zeroFrom buf p"
  shows "encodeMembers ipLen ms buf p =
           (if list_all (memberOK ipLen) ms
            then Some (overwrite buf p (concat (map (memberBytes ipLen) ms)),
                       p + length ms * (9 + ipLen + ipLen))
            else None)"
  using assms
proof (induction ms arbitrary: buf p)
  case Nil
  then show ?case by (simp add: overwrite_Nil)
next
  case (Cons mm ms)
  have fit: "p + (9 + ipLen + ipLen) \<le> length buf"
    using Cons.prems(1) by simp
  show ?case
  proof (cases "memberOK ipLen mm")
    case False
    then show ?thesis
      by (simp add: encodeMember_wire [OF fit Cons.prems(2)])
  next
    case True
    let ?b = "overwrite buf p (memberBytes ipLen mm)"
    let ?q = "p + (9 + ipLen + ipLen)"
    have lmb: "length (memberBytes ipLen mm) = 9 + ipLen + ipLen"
      using True by (rule length_memberBytes)
    have lb: "length ?b = length buf"
      using fit lmb by (simp add: length_overwrite)
    have z: "zeroFrom ?b ?q"
      using zeroFrom_overwrite [OF Cons.prems(2), of "memberBytes ipLen mm"] fit lmb by simp
    have fit': "?q + length ms * (9 + ipLen + ipLen) \<le> length ?b"
      using Cons.prems(1) lb by simp
    have lrest: "list_all (memberOK ipLen) ms \<Longrightarrow>
                 length (concat (map (memberBytes ipLen) ms)) = length ms * (9 + ipLen + ipLen)"
      by (induction ms) (simp_all add: length_memberBytes)
    have join: "overwrite ?b ?q (concat (map (memberBytes ipLen) ms))
                  = overwrite buf p (concat (map (memberBytes ipLen) (mm # ms)))"
      if "list_all (memberOK ipLen) ms"
      using ow2 [of ?q p "memberBytes ipLen mm" "concat (map (memberBytes ipLen) ms)" buf]
        lmb lrest [OF that] Cons.prems(1)
      by simp
    have step: "encodeMembers ipLen (mm # ms) buf p = encodeMembers ipLen ms ?b ?q"
      by (simp only: encodeMembers.simps encodeMember_wire [OF fit Cons.prems(2)] True if_True
            Option.bind.simps prod.case)
    show ?thesis
      unfolding step using True join Cons.IH [OF fit' z]
      by auto
  qed
qed

lemma Broadcast_encode_wire:
  "Broadcast_encode ipLen b =
     (if nodeOK ipLen (origin b) then Some (broadcastBytes ipLen b) else None)"
  by (simp add: Broadcast_encode_def nodeOK_def broadcastBytes_def be16_def be32_def
      split: option.splits)

lemma length_broadcastBytes:
  "nodeOK ipLen (origin b) \<Longrightarrow> length (broadcastBytes ipLen b) = 8 + ipLen + length (bytes b)"
  by (auto simp: nodeOK_def broadcastBytes_def split: option.splits)

lemma length_members_wire:
  "list_all (memberOK ipLen) ms \<Longrightarrow>
   length (concat (map (memberBytes ipLen) ms)) = length ms * (9 + ipLen + ipLen)"
  by (induction ms) (simp_all add: length_memberBytes)

lemma zeroFrom_replicate: "zeroFrom (replicate n 0) p"
  by (simp add: zeroFrom_def)

lemma encode_head:
  fixes f :: "byte list \<Rightarrow> nat \<Rightarrow> byte list option"
  assumes fit: "11 \<le> length buf" and s: "sender m = Some s"
  shows "do {
       (buf, k) \<leftarrow> encodeByte vb buf 4;
       let p = 4 + k;
       s \<leftarrow> sender m;
       (buf, k) \<leftarrow> encodeUint16 (port s) buf p;
       let p = p + k;
       (buf, k) \<leftarrow> encodeUint32 (senderHeartbeat m) buf p;
       let p = p + k;
       f buf p } =
     f (overwrite buf 4 ([vb] @ be16 (port s) @ be32 (senderHeartbeat m))) 11"
proof -
  define b1 where "b1 = overwrite buf 4 [vb]"
  define b2 where "b2 = overwrite buf 4 ([vb] @ be16 (port s))"
  define b3 where "b3 = overwrite buf 4 ([vb] @ be16 (port s) @ be32 (senderHeartbeat m))"
  have l1: "length b1 = length buf" and l2: "length b2 = length buf"
    using fit by (simp_all add: b1_def b2_def length_overwrite)
  have e1: "encodeByte vb buf 4 = Some (b1, 1)"
    using fit by (simp add: encodeByte_overwrite b1_def)
  have "overwrite b1 (4 + 1) (be16 (port s)) = b2"
    unfolding b1_def b2_def using fit ow2 [of "4 + 1" 4 "[vb]" "be16 (port s)" buf] by simp
  then have e2: "encodeUint16 (port s) b1 (4 + 1) = Some (b2, 2)"
    using fit l1 by (simp add: encodeUint16_overwrite)
  have "overwrite b2 (4 + 1 + 2) (be32 (senderHeartbeat m)) = b3"
    unfolding b2_def b3_def
    using fit ow2 [of "4 + 1 + 2" 4 "[vb] @ be16 (port s)" "be32 (senderHeartbeat m)" buf] by simp
  then have e3: "encodeUint32 (senderHeartbeat m) b2 (4 + 1 + 2) = Some (b3, 4)"
    using fit l2 by (simp add: encodeUint32_overwrite)
  have c: "(4::nat) + 1 + 2 + 4 = 11"
    by simp
  show ?thesis
    by (simp only: e1 s e2 e3 Option.bind.simps Let_def prod.case option.sel b3_def c)
qed

lemma encode_wire:
  "encode ipLen m = (if encodable ipLen m then Some (wire ipLen m) else None)"
proof -
  define n where "n = length (members m)"
  define w where "w = 9 + ipLen + ipLen"
  define size where
    "size = (case broadcast m of
               None \<Rightarrow> 11 + length (members m) * (9 + ipLen + ipLen)
             | Some b \<Rightarrow> 11 + length (members m) * (9 + ipLen + ipLen) +
                 (8 + ipLen + length (bytes b)))"
  define buf0 where "buf0 = replicate size (0 :: byte)"
  define rest where "rest = (\<lambda>buf p. do {
        (buf, p) \<leftarrow> encodeMembers ipLen (members m) buf p;
        buf \<leftarrow> (case broadcast m of
                  None \<Rightarrow> Some buf
                | Some b \<Rightarrow> do {
                    bbytes \<leftarrow> Broadcast_encode ipLen b;
                    copyBroadcast bbytes buf p
                  });
        let checksum = adler32 (drop 4 buf);
        (buf, k) \<leftarrow> encodeUint32 checksum buf 0;
        Some buf
      })"
  have unfold: "encode ipLen m = do {
       (buf, k) \<leftarrow> encodeByte (packedByte m) buf0 4;
       let p = 4 + k;
       s \<leftarrow> sender m;
       (buf, k) \<leftarrow> encodeUint16 (port s) buf p;
       let p = p + k;
       (buf, k) \<leftarrow> encodeUint32 (senderHeartbeat m) buf p;
       let p = p + k;
       rest buf p }"
    unfolding encode_def Let_def rest_def buf0_def size_def packedByte_def
    by (rule refl)
  have size11: "11 \<le> size" and sizen: "11 + n * w \<le> size"
    by (simp_all add: size_def n_def w_def split: option.splits)
  have l0: "length buf0 = size"
    by (simp add: buf0_def)
  show ?thesis
  proof (cases "sender m")
    case None
    then show ?thesis
      using size11 l0 by (simp add: unfold encodable_def encodeByte_overwrite)
  next
    case (Some s)
    define hdr where "hdr = [packedByte m] @ be16 (port s) @ be32 (senderHeartbeat m)"
    have lhdr: "length hdr = 7"
      by (simp add: hdr_def)
    define b3 where "b3 = overwrite buf0 4 hdr"
    have l3: "length b3 = size"
      using size11 l0 lhdr by (simp add: b3_def length_overwrite)
    have z3: "zeroFrom b3 11"
      using zeroFrom_overwrite [OF zeroFrom_replicate, of 4 hdr size] size11 lhdr
      by (simp add: b3_def buf0_def)
    have step1: "encode ipLen m = rest b3 11"
      unfolding unfold b3_def hdr_def
      using size11 l0 by (intro encode_head [OF _ Some]) simp
    have fitm: "11 + length (members m) * (9 + ipLen + ipLen) \<le> length b3"
      using sizen l3 by (simp add: n_def w_def)
    note mem = encodeMembers_wire [OF fitm z3]
    show ?thesis
    proof (cases "list_all (memberOK ipLen) (members m)")
      case False
      then show ?thesis
        by (simp add: step1 rest_def mem encodable_def)
    next
      case mok: True
      define mb where "mb = concat (map (memberBytes ipLen) (members m))"
      have lmb: "length mb = n * w"
        using mok by (simp add: mb_def n_def w_def length_members_wire)
      define b4 where "b4 = overwrite buf0 4 (hdr @ mb)"
      have b4: "overwrite b3 11 mb = b4"
        unfolding b3_def b4_def
        using ow2 [of 11 4 hdr mb buf0] lhdr lmb sizen l0 by simp
      have l4: "length b4 = size"
        using sizen l0 lhdr lmb by (simp add: b4_def length_overwrite)
      have final: "encodeUint32 (adler32 (drop 4 b)) b 0 \<bind> (\<lambda>(buf, k). Some buf)
                     = Some (be32 (adler32 body) @ body)"
        if "b = overwrite buf0 4 body" and "4 + length body = size" for b body
      proof -
        have "b = replicate 4 0 @ body"
          using that by (simp add: overwrite_def buf0_def)
        then show ?thesis
          by (simp add: encodeUint32_overwrite overwrite_def)
      qed
      show ?thesis
      proof (cases "broadcast m")
        case None
        have "4 + length (hdr @ mb) = size"
          using lhdr lmb None by (simp add: size_def n_def w_def)
        from final [OF b4_def this]
        have "encode ipLen m = Some (be32 (adler32 (hdr @ mb)) @ hdr @ mb)"
          using mok None b4
          by (simp add: step1 rest_def mem mb_def [symmetric] n_def [symmetric] w_def [symmetric])
        moreover have "wireBody ipLen m = hdr @ mb"
          using Some None by (simp add: wireBody_def hdr_def mb_def)
        ultimately show ?thesis
          using Some None mok by (simp add: encodable_def wire_def)
      next
        case bc: (Some b)
        show ?thesis
        proof (cases "nodeOK ipLen (origin b)")
          case False
          then show ?thesis
            using mok bc
            by (simp add: step1 rest_def mem encodable_def Broadcast_encode_wire)
        next
          case True
          define bb where "bb = broadcastBytes ipLen b"
          have lbb: "length bb = 8 + ipLen + length (bytes b)"
            using True by (simp add: bb_def length_broadcastBytes)
          have total: "4 + length (hdr @ mb @ bb) = size"
            using lhdr lmb lbb bc by (simp add: size_def n_def w_def)
          define b5 where "b5 = overwrite buf0 4 (hdr @ mb @ bb)"
          have "overwrite b4 (11 + n * w) bb = b5"
            unfolding b4_def b5_def
            using ow2 [of "11 + n * w" 4 "hdr @ mb" bb buf0] lhdr lmb total l0 by simp
          then have cb: "copyBroadcast bb b4 (11 + n * w) = Some b5"
            using l4 lbb total lhdr lmb by (simp add: copyBroadcast_overwrite)
          from final [OF b5_def total]
          have "encode ipLen m = Some (be32 (adler32 (hdr @ mb @ bb)) @ hdr @ mb @ bb)"
            using mok bc b4 cb True
            by (simp add: step1 rest_def mem mb_def [symmetric] n_def [symmetric]
                  w_def [symmetric] Broadcast_encode_wire bb_def [symmetric])
          moreover have "wireBody ipLen m = hdr @ mb @ bb"
            using Some bc by (simp add: wireBody_def hdr_def mb_def bb_def)
          ultimately show ?thesis
            using Some bc mok True by (simp add: encodable_def wire_def)
        qed
      qed
    qed
  qed
qed

subsection \<open>What the decoder reads\<close>

lemma u16_be16: "push_bit 8 (ucast (ucast (drop_bit 8 v) :: byte)) OR ucast (ucast v :: byte) = (v :: uint16)"
  by (rule bit_word_eqI) (auto simp: bit_simps)

lemma u32_be32:
  "push_bit 24 (ucast (ucast (drop_bit 24 v) :: byte)) OR
   push_bit 16 (ucast (ucast (drop_bit 16 v) :: byte)) OR
   push_bit 8 (ucast (ucast (drop_bit 8 v) :: byte)) OR ucast (ucast v :: byte) = (v :: uint32)"
proof (rule bit_word_eqI)
  fix n
  assume "n < LENGTH(32)"
  then have n: "n < 32"
    by simp
  consider "n < 8" | "8 \<le> n" "n < 16" | "16 \<le> n" "n < 24" | "24 \<le> n"
    by linarith
  then show "bit (push_bit 24 (ucast (ucast (drop_bit 24 v) :: byte)) OR
   push_bit 16 (ucast (ucast (drop_bit 16 v) :: byte)) OR
   push_bit 8 (ucast (ucast (drop_bit 8 v) :: byte)) OR ucast (ucast v :: byte) :: uint32) n = bit v n"
    using n by cases (auto simp: bit_simps)
qed

lemma decodeMember_at:
  assumes "ipLen = 4 \<or> ipLen = 16" and "p + (9 + ipLen + ipLen) \<le> length (elems s)"
  shows "decodeMember ipLen d s p = Some (memberAt ipLen d (elems s) p, p + (9 + ipLen + ipLen))"
  using assms
  by (auto simp: decodeMember_def at_def readIP_def reslice_def decodeUint16_def
        decodeUint32_def Let_def memberAt_def ipAt_def u16At_def u32At_def IPv4_def
        v4InV6Prefix_def ac_simps)

lemma decodeMembers_loop_at:
  assumes "ipLen = 4 \<or> ipLen = 16"
  shows "length (elems s) = p + k * (9 + ipLen + ipLen) \<Longrightarrow>
         decodeMembers_loop ipLen d s p acc =
           Some (acc @ map (\<lambda>i. memberAt ipLen d (elems s) (p + i * (9 + ipLen + ipLen))) [0..<k])"
proof (induction k arbitrary: p acc)
  case 0
  then show ?case
    by (subst decodeMembers_loop.simps) simp
next
  case (Suc k)
  let ?w = "9 + ipLen + ipLen"
  have lt: "p < length (elems s)"
    using Suc.prems by simp
  have fit: "p + ?w \<le> length (elems s)"
    using Suc.prems by simp
  have next_len: "length (elems s) = (p + ?w) + k * ?w"
    using Suc.prems by simp
  have "decodeMembers_loop ipLen d s p acc
          = decodeMembers_loop ipLen d s (p + ?w) (acc @ [memberAt ipLen d (elems s) p])"
    using lt by (subst decodeMembers_loop.simps) (simp add: decodeMember_at [OF assms fit])
  also have "\<dots> = Some ((acc @ [memberAt ipLen d (elems s) p]) @
                 map (\<lambda>i. memberAt ipLen d (elems s) ((p + ?w) + i * ?w)) [0..<k])"
    by (rule Suc.IH [OF next_len])
  also have "(acc @ [memberAt ipLen d (elems s) p]) @
                 map (\<lambda>i. memberAt ipLen d (elems s) ((p + ?w) + i * ?w)) [0..<k]
             = acc @ map (\<lambda>i. memberAt ipLen d (elems s) (p + i * ?w)) [0..<Suc k]"
    by (simp add: upt_rec [of 0 "Suc k"] map_Suc_upt [symmetric] del: upt_Suc add: ac_simps)
  finally show ?case .
qed

subsection \<open>The packed byte\<close>

lemma packed_verb:
  assumes "v < 4"
  shows "(push_bit 2 x OR v) AND 3 = (v :: byte)"
proof -
  have v: "v AND mask 2 = v"
    using assms less_mask_eq [of v 2] by simp
  have "(push_bit 2 x OR v) AND mask 2 = v AND mask 2"
    by (rule bit_word_eqI) (auto simp: bit_simps)
  then show ?thesis
    using v by (simp add: mask_eq_exp_minus_1)
qed

lemma packed_count:
  assumes "n < 64" and "v < 4"
  shows "unat (drop_bit 2 (push_bit 2 (word_of_nat n :: byte) OR v)) = n"
proof -
  have v: "v AND mask 2 = v"
    using assms less_mask_eq [of v 2] by simp
  have "drop_bit 2 (push_bit 2 (word_of_nat n :: byte) OR (v AND mask 2))
          = take_bit 6 (word_of_nat n :: byte)"
    by (rule bit_word_eqI) (auto simp: bit_simps)
  then have "unat (drop_bit 2 (push_bit 2 (word_of_nat n :: byte) OR v))
          = unat (take_bit 6 (word_of_nat n :: byte))"
    by (simp add: v)
  also have "\<dots> = take_bit 6 (n mod 2 ^ LENGTH(8))"
    by (simp only: unsigned_take_bit_eq unat_of_nat)
  also have "\<dots> = n"
    using assms(1) by (simp add: take_bit_eq_mod)
  finally show ?thesis .
qed

subsection \<open>Reading what encode wrote\<close>

lemma u16At_app: "u16At (pre @ be16 v @ post) (length pre) = v"
  by (simp add: u16At_def be16_def nth_append u16_be16)

lemma u32At_app: "u32At (pre @ be32 v @ post) (length pre) = v"
  by (simp add: u32At_def be32_def nth_append u32_be32)

lemma list4: "length xs = 4 \<Longrightarrow> xs = [xs ! 0, xs ! 1, xs ! 2, xs ! 3]"
  by (rule nth_equalityI) (auto simp: nth_Cons' less_Suc_eq_0_disj numeral_eq_Suc)

lemma To4_length: "length (To4 a) = 4 \<or> To4 a = []"
  by (auto simp: To4_def)

lemma To16_length: "length (To16 a) = 16 \<or> To16 a = []"
  by (auto simp: To16_def IPv4_def v4InV6Prefix_def)

lemma IPv4_To4:
  assumes "length (To4 a) = 4"
  shows "IPv4 (To4 a ! 0) (To4 a ! 1) (To4 a ! 2) (To4 a ! 3) = To16 a"
proof (cases "length a = 4")
  case True
  then show ?thesis by (simp add: To4_def To16_def)
next
  case False
  with assms have a: "length a = 16" "take 12 a = v4InV6Prefix"
    by (auto simp: To4_def split: if_splits)
  then have "To4 a = drop 12 a"
    by (simp add: To4_def)
  moreover have "drop 12 a = [drop 12 a ! 0, drop 12 a ! 1, drop 12 a ! 2, drop 12 a ! 3]"
    using a by (intro list4) simp
  moreover have "a = take 12 a @ drop 12 a"
    by simp
  ultimately have "IPv4 (To4 a ! 0) (To4 a ! 1) (To4 a ! 2) (To4 a ! 3) = a"
    using a by (metis IPv4_def)
  then show ?thesis
    using a by (simp add: To16_def)
qed

lemma ipAt_app:
  assumes "ipLen = 4 \<or> ipLen = 16" and "ipLen \<le> length (ipBytes ipLen a)"
  shows "ipAt ipLen (pre @ take ipLen (ipBytes ipLen a) @ post) (length pre) = To16 a"
  using assms(1)
proof
  assume four: "ipLen = 4"
  then have l: "length (To4 a) = 4"
    using assms(2) To4_length [of a] by (auto simp: ipBytes_def)
  then have "ipAt ipLen (pre @ take ipLen (ipBytes ipLen a) @ post) (length pre)
               = IPv4 (To4 a ! 0) (To4 a ! 1) (To4 a ! 2) (To4 a ! 3)"
    using four by (simp add: ipAt_def ipBytes_def nth_append)
  then show ?thesis
    using IPv4_To4 [OF l] by simp
next
  assume sixteen: "ipLen = 16"
  then have l: "length (To16 a) = 16"
    using assms(2) To16_length [of a] by (auto simp: ipBytes_def)
  then show ?thesis
    using sixteen by (simp add: ipAt_def ipBytes_def)
qed

lemma take_replicate_app: "take n (replicate (n + k) x @ post) = replicate n x"
  by simp

lemma ipAt16_app: "ipAt 16 (pre @ xs) (length pre) = take 16 xs"
  by (simp add: ipAt_def)

lemma ipAt_zero:
  assumes "ipLen = 4 \<or> ipLen = 16"
  shows "ipAt ipLen (pre @ replicate (ipLen + 2) 0 @ post) (length pre) = zeroIP ipLen"
  using assms
proof
  assume "ipLen = 4"
  then show ?thesis
    by (simp add: ipAt_def zeroIP_def nth_append)
next
  assume sixteen: "ipLen = 16"
  have "ipAt 16 (pre @ (replicate (16 + 2) 0 @ post)) (length pre)
          = take 16 (replicate (16 + 2) 0 @ post)"
    by (rule ipAt16_app)
  also have "\<dots> = replicate 16 0"
    by (rule take_replicate_app)
  finally show ?thesis
    using sixteen by (simp add: zeroIP_def)
qed

lemma u16At_zeros:
  "j + 1 < k \<Longrightarrow> u16At (pre @ replicate k 0 @ post) (length pre + j) = 0"
  by (simp add: u16At_def nth_append)

lemma u16At_zero:
  "u16At (pre @ replicate (ipLen + 2) 0 @ post) (length pre + ipLen) = 0"
  by (rule u16At_zeros) simp

lemma memberAt_wire:
  assumes ipLen: "ipLen = 4 \<or> ipLen = 16" and ok: "memberOK ipLen mm"
  shows "memberAt ipLen d (pre @ memberBytes ipLen mm @ post) (length pre) = decodedMember ipLen d mm"
proof -
  obtain n where n: "node mm = Some n" and nok: "ipLen \<le> length (ipBytes ipLen (ip n))"
    using ok by (auto simp: memberOK_def nodeOK_def split: option.splits)
  define ipn where "ipn = take ipLen (ipBytes ipLen (ip n))"
  define src where "src = (case source mm of None \<Rightarrow> replicate (ipLen + 2) 0
      | Some sn \<Rightarrow> take ipLen (ipBytes ipLen (ip sn)) @ be16 (port sn))"
  have lipn: "length ipn = ipLen"
    using nok by (simp add: ipn_def)
  have mb: "memberBytes ipLen mm = [status mm] @ ipn @ be16 (port n) @ be32 (heartbeat mm) @ src"
    using n by (simp add: memberBytes_def ipn_def src_def)
  let ?bs = "pre @ memberBytes ipLen mm @ post"
  have st: "?bs ! length pre = status mm"
    by (simp add: mb)
  have "?bs = (pre @ [status mm]) @ take ipLen (ipBytes ipLen (ip n)) @
                (be16 (port n) @ be32 (heartbeat mm) @ src @ post)"
    by (simp add: mb ipn_def)
  then have "ipAt ipLen ?bs (length (pre @ [status mm])) = To16 (ip n)"
    by (simp only: ipAt_app [OF ipLen nok])
  then have nip: "ipAt ipLen ?bs (length pre + 1) = To16 (ip n)"
    by simp
  have "?bs = (pre @ [status mm] @ ipn) @ be16 (port n) @ (be32 (heartbeat mm) @ src @ post)"
    by (simp add: mb)
  then have "u16At ?bs (length (pre @ [status mm] @ ipn)) = port n"
    by (simp only: u16At_app)
  moreover have "length (pre @ [status mm] @ ipn) = length pre + 1 + ipLen"
    using lipn by simp
  ultimately have npt: "u16At ?bs (length pre + 1 + ipLen) = port n"
    by (simp only:)
  have "?bs = (pre @ [status mm] @ ipn @ be16 (port n)) @ be32 (heartbeat mm) @ (src @ post)"
    by (simp add: mb)
  then have "u32At ?bs (length (pre @ [status mm] @ ipn @ be16 (port n))) = heartbeat mm"
    by (simp only: u32At_app)
  moreover have "length (pre @ [status mm] @ ipn @ be16 (port n)) = length pre + 3 + ipLen"
    using lipn by simp
  ultimately have hb: "u32At ?bs (length pre + 3 + ipLen) = heartbeat mm"
    by (simp only:)
  define pre2 where "pre2 = pre @ [status mm] @ ipn @ be16 (port n) @ be32 (heartbeat mm)"
  have lpre2: "length pre2 = length pre + 7 + ipLen"
    using lipn by (simp add: pre2_def)
  have bs2: "?bs = pre2 @ src @ post"
    by (simp add: mb pre2_def)
  have srcf: "lookupOrCreate d (ipAt ipLen ?bs (length pre + 7 + ipLen))
                 (u16At ?bs (length pre + 7 + ipLen + ipLen)) = source (decodedMember ipLen d mm)"
  proof (cases "source mm")
    case None
    then have s: "src = replicate (ipLen + 2) 0"
      by (simp add: src_def)
    have "ipAt ipLen (pre2 @ replicate (ipLen + 2) 0 @ post) (length pre2) = zeroIP ipLen"
      by (rule ipAt_zero [OF ipLen])
    moreover have "u16At (pre2 @ replicate (ipLen + 2) 0 @ post) (length pre2 + ipLen) = 0"
      by (rule u16At_zero)
    ultimately show ?thesis
      using None lpre2 by (simp add: bs2 s decodedMember_def)
  next
    case (Some sn)
    then have sok: "ipLen \<le> length (ipBytes ipLen (ip sn))"
      using ok by (simp add: memberOK_def nodeOK_def)
    define ips where "ips = take ipLen (ipBytes ipLen (ip sn))"
    have lips: "length ips = ipLen"
      using sok by (simp add: ips_def)
    have s: "src = ips @ be16 (port sn)"
      using Some by (simp add: src_def ips_def)
    have "ipAt ipLen (pre2 @ take ipLen (ipBytes ipLen (ip sn)) @ (be16 (port sn) @ post)) (length pre2)
            = To16 (ip sn)"
      by (rule ipAt_app [OF ipLen sok])
    then have a: "ipAt ipLen ?bs (length pre + 7 + ipLen) = To16 (ip sn)"
      by (simp add: bs2 s ips_def lpre2)
    have "u16At ((pre2 @ ips) @ be16 (port sn) @ post) (length (pre2 @ ips)) = port sn"
      by (rule u16At_app)
    then have b: "u16At ?bs (length pre + 7 + ipLen + ipLen) = port sn"
      using lips by (simp add: bs2 s lpre2)
    show ?thesis
      using Some a b by (simp add: decodedMember_def)
  qed
  show ?thesis
    unfolding memberAt_def st nip npt hb srcf
    using n by (simp add: decodedMember_def)
qed

lemma membersAt_wire:
  assumes ipLen: "ipLen = 4 \<or> ipLen = 16"
  shows "list_all (memberOK ipLen) ms \<Longrightarrow>
         map (\<lambda>i. memberAt ipLen d (pre @ concat (map (memberBytes ipLen) ms) @ post)
                     (length pre + i * (9 + ipLen + ipLen))) [0..<length ms]
           = map (decodedMember ipLen d) ms"
proof (induction ms arbitrary: pre)
  case Nil
  then show ?case by simp
next
  case (Cons mm ms)
  let ?w = "9 + ipLen + ipLen"
  let ?bs = "pre @ concat (map (memberBytes ipLen) (mm # ms)) @ post"
  have ok: "memberOK ipLen mm" and oks: "list_all (memberOK ipLen) ms"
    using Cons.prems by simp_all
  have lmb: "length (memberBytes ipLen mm) = ?w"
    using ok by (rule length_memberBytes)
  have bs: "?bs = (pre @ memberBytes ipLen mm) @ concat (map (memberBytes ipLen) ms) @ post"
    by simp
  have first: "memberAt ipLen d ?bs (length pre) = decodedMember ipLen d mm"
    using memberAt_wire [OF ipLen ok, of d pre "concat (map (memberBytes ipLen) ms) @ post"]
    by simp
  have rest: "map (\<lambda>i. memberAt ipLen d ?bs (length (pre @ memberBytes ipLen mm) + i * ?w))
                [0..<length ms] = map (decodedMember ipLen d) ms"
    unfolding bs by (rule Cons.IH [OF oks])
  have "map (\<lambda>i. memberAt ipLen d ?bs (length pre + i * ?w)) [0..<length (mm # ms)]
          = memberAt ipLen d ?bs (length pre) #
            map (\<lambda>i. memberAt ipLen d ?bs (length pre + Suc i * ?w)) [0..<length ms]"
    by (simp add: upt_rec [of 0 "Suc (length ms)"] map_Suc_upt [symmetric] del: upt_Suc)
  also have "map (\<lambda>i. memberAt ipLen d ?bs (length pre + Suc i * ?w)) [0..<length ms]
          = map (\<lambda>i. memberAt ipLen d ?bs (length (pre @ memberBytes ipLen mm) + i * ?w)) [0..<length ms]"
    using lmb by (simp add: ac_simps)
  finally show ?case
    using first rest by simp
qed

lemma decodeByte_at: "q < length bs \<Longrightarrow> decodeByte bs q = Some (bs ! q, q + 1)"
  by (simp add: decodeByte_def)

lemma decodeUint16_at: "q + 2 \<le> length bs \<Longrightarrow> decodeUint16 bs q = Some (u16At bs q, q + 2)"
  by (simp add: decodeUint16_def u16At_def)

lemma decodeUint32_at: "q + 4 \<le> length bs \<Longrightarrow> decodeUint32 bs q = Some (u32At bs q, q + 4)"
  by (simp add: decodeUint32_def u32At_def)

lemma readIP_at:
  assumes "ipLen = 4 \<or> ipLen = 16" and "q + ipLen \<le> length (elems t)"
  shows "readIP ipLen t q = Some (ipAt ipLen (elems t) q)"
  using assms by (auto simp: readIP_def ipAt_def at_def reslice_def)

lemma decodeBroadcast_wire:
  assumes ipLen: "ipLen = 4 \<or> ipLen = 16"
    and ok: "nodeOK ipLen (origin b)"
    and small: "length (bytes b) < 65536"
    and t: "elems t = broadcastBytes ipLen b"
  shows "decodeBroadcast ipLen d t = Some (Some (decodedBroadcast d b), None)"
proof -
  obtain n where n: "origin b = Some n" and nok: "ipLen \<le> length (ipBytes ipLen (ip n))"
    using ok by (auto simp: nodeOK_def split: option.splits)
  define ipn where "ipn = take ipLen (ipBytes ipLen (ip n))"
  define ln where "ln = (word_of_nat (length (bytes b)) :: uint16)"
  have lipn: "length ipn = ipLen"
    using nok by (simp add: ipn_def)
  have bs: "elems t = ipn @ be16 (port n) @ be32 (index b) @ be16 ln @ bytes b"
    using n by (simp add: t broadcastBytes_def ipn_def ln_def)
  have len: "length (elems t) = ipLen + 8 + length (bytes b)"
    using lipn by (simp add: bs)
  have uln: "unat ln = length (bytes b)"
    using small by (simp add: ln_def unat_of_nat)
  have "ipAt ipLen ([] @ take ipLen (ipBytes ipLen (ip n)) @
          (be16 (port n) @ be32 (index b) @ be16 ln @ bytes b)) (length ([] :: byte list)) = To16 (ip n)"
    by (rule ipAt_app [OF ipLen nok])
  then have a: "ipAt ipLen (elems t) 0 = To16 (ip n)"
    by (simp add: bs ipn_def)
  have r: "readIP ipLen t 0 = Some (To16 (ip n))"
    using readIP_at [OF ipLen, of 0 t] len a by simp
  have b1: "0 + ipLen + 2 \<le> length (elems t)"
    and b2: "0 + ipLen + 2 + 4 \<le> length (elems t)"
    and b3: "0 + ipLen + 2 + 4 + 2 \<le> length (elems t)"
    using len by simp_all
  have e1: "length ipn = 0 + ipLen"
    and e2: "length (ipn @ be16 (port n)) = 0 + ipLen + 2"
    and e3: "length (ipn @ be16 (port n) @ be32 (index b)) = 0 + ipLen + 2 + 4"
    using lipn by simp_all
  have "u16At (ipn @ be16 (port n) @ (be32 (index b) @ be16 ln @ bytes b)) (length ipn) = port n"
    by (rule u16At_app)
  then have o1: "u16At (elems t) (0 + ipLen) = port n"
    by (simp only: bs e1)
  have "u32At ((ipn @ be16 (port n)) @ be32 (index b) @ (be16 ln @ bytes b)) (length (ipn @ be16 (port n)))
          = index b"
    by (rule u32At_app)
  then have o2: "u32At (elems t) (0 + ipLen + 2) = index b"
    by (simp only: bs e2 append_assoc)
  have "u16At ((ipn @ be16 (port n) @ be32 (index b)) @ be16 ln @ bytes b)
          (length (ipn @ be16 (port n) @ be32 (index b))) = ln"
    by (rule u16At_app)
  then have o3: "u16At (elems t) (0 + ipLen + 2 + 4) = ln"
    by (simp only: bs e3 append_assoc)
  have p1: "decodeUint16 (elems t) (0 + ipLen) = Some (port n, 0 + ipLen + 2)"
    using decodeUint16_at [OF b1] by (simp only: o1)
  have p2: "decodeUint32 (elems t) (0 + ipLen + 2) = Some (index b, 0 + ipLen + 2 + 4)"
    using decodeUint32_at [OF b2] by (simp only: o2)
  have p3: "decodeUint16 (elems t) (0 + ipLen + 2 + 4) = Some (ln, 0 + ipLen + 2 + 4 + 2)"
    using decodeUint16_at [OF b3] by (simp only: o3)
  have payload: "take (unat ln) (drop (0 + ipLen + 2 + 4 + 2) (elems t)) = bytes b"
    using lipn uln by (simp add: bs)
  have fits: "\<not> length (elems t) < 0 + ipLen + 2 + 4 + 2 + unat ln"
    using len uln by simp
  show ?thesis
    using n
    by (simp only: decodeBroadcast_def r p1 p2 p3 Option.bind.simps Let_def prod.case fits if_False
          payload decodedBroadcast_def option.case)
qed

lemma length_wireBody:
  assumes "encodable ipLen m"
  shows "length (wireBody ipLen m) =
           7 + length (members m) * (9 + ipLen + ipLen) +
           (case broadcast m of None \<Rightarrow> 0 | Some b \<Rightarrow> 8 + ipLen + length (bytes b))"
  using assms
  by (auto simp: encodable_def wireBody_def length_members_wire length_broadcastBytes
      split: option.splits)

lemma decodeMembers_wire:
  assumes ipLen: "ipLen = 4 \<or> ipLen = 16"
    and ok: "list_all (memberOK ipLen) ms"
    and t: "elems t = concat (map (memberBytes ipLen) ms)"
  shows "decodeMembers ipLen d cnt t = Some (map (decodedMember ipLen d) ms)"
proof -
  have len: "length (elems t) = 0 + length ms * (9 + ipLen + ipLen)"
    using ok by (simp add: t length_members_wire)
  have "map (\<lambda>i. memberAt ipLen d (elems t) (0 + i * (9 + ipLen + ipLen))) [0..<length ms]
          = map (decodedMember ipLen d) ms"
    using membersAt_wire [OF ipLen ok, of d "[]" "[]"] by (simp add: t)
  then show ?thesis
    using decodeMembers_loop_at [OF ipLen len, of d "[]"] by (simp add: decodeMembers_def)
qed

lemma decodeMessage_wire:
  assumes ipLen: "ipLen = 4 \<or> ipLen = 16" and wf: "wellFormed ipLen m"
  shows "decodeMessage ipLen d sourceIP \<lparr>elems = wire ipLen m, spare = sp\<rparr>
           = Some (decodedMessage ipLen d sourceIP m, None)"
proof -
  let ?w = "9 + ipLen + ipLen"
  let ?n = "length (members m)"
  have enc: "encodable ipLen m" and vb: "verb m < 4" and cnt: "?n < 64"
    using wf by (simp_all add: wellFormed_def)
  obtain s where s: "sender m = Some s"
    using enc by (auto simp: encodable_def)
  have mok: "list_all (memberOK ipLen) (members m)"
    using enc by (simp add: encodable_def)
  define ck where "ck = adler32 (wireBody ipLen m)"
  define mbs where "mbs = concat (map (memberBytes ipLen) (members m))"
  define bbs where "bbs = (case broadcast m of None \<Rightarrow> [] | Some b \<Rightarrow> broadcastBytes ipLen b)"
  define bs where "bs = wire ipLen m"
  define s0 where "s0 = \<lparr>elems = bs, spare = sp\<rparr>"
  have body: "wireBody ipLen m = [packedByte m] @ be16 (port s) @ be32 (senderHeartbeat m) @ mbs @ bbs"
    using s by (simp add: wireBody_def mbs_def bbs_def)
  have bs: "bs = be32 ck @ [packedByte m] @ be16 (port s) @ be32 (senderHeartbeat m) @ mbs @ bbs"
    by (simp add: bs_def wire_def ck_def body)
  have lmbs: "length mbs = ?n * ?w"
    using mok by (simp add: mbs_def length_members_wire)
  have lbs: "length bs = 11 + ?n * ?w + length bbs"
    by (simp add: bs lmbs)
  have el: "elems s0 = bs"
    by (simp add: s0_def)
  \<comment> \<open>the header\<close>
  have "u32At ([] @ be32 ck @ ([packedByte m] @ be16 (port s) @ be32 (senderHeartbeat m) @ mbs @ bbs))
          (length ([] :: byte list)) = ck"
    by (rule u32At_app)
  then have "u32At bs 0 = ck"
    by (simp add: bs)
  then have f1: "decodeUint32 (elems s0) 0 = Some (ck, 4)"
    using decodeUint32_at [of 0 bs] lbs by (simp add: el)
  have "drop 4 bs = wireBody ipLen m"
    by (simp add: bs body)
  then have f2: "resliceFrom s0 4 = Some \<lparr>elems = wireBody ipLen m, spare = sp\<rparr>"
    using resliceFrom_4 [of s0] lbs by (simp add: el s0_def)
  have "bs ! 4 = packedByte m"
    by (simp add: bs nth_append)
  then have f3: "decodeByte (elems s0) 4 = Some (packedByte m, 5)"
    using decodeByte_at [of 4 bs] lbs by (simp add: el)
  have "u16At ((be32 ck @ [packedByte m]) @ be16 (port s) @ (be32 (senderHeartbeat m) @ mbs @ bbs))
          (length (be32 ck @ [packedByte m])) = port s"
    by (rule u16At_app)
  then have "u16At bs 5 = port s"
    by (simp add: bs)
  then have f4: "decodeUint16 (elems s0) 5 = Some (port s, 7)"
    using decodeUint16_at [of 5 bs] lbs by (simp add: el)
  have "u32At ((be32 ck @ [packedByte m] @ be16 (port s)) @ be32 (senderHeartbeat m) @ (mbs @ bbs))
          (length (be32 ck @ [packedByte m] @ be16 (port s))) = senderHeartbeat m"
    by (rule u32At_app)
  then have "u32At bs 7 = senderHeartbeat m"
    by (simp add: bs)
  then have f5: "decodeUint32 (elems s0) 7 = Some (senderHeartbeat m, 11)"
    using decodeUint32_at [of 7 bs] lbs by (simp add: el)
  have pv: "packedByte m AND 3 = verb m"
    unfolding packedByte_def using vb by (rule packed_verb)
  have pc: "unat (drop_bit 2 (packedByte m)) = ?n"
    unfolding packedByte_def using cnt vb by (rule packed_count)
  \<comment> \<open>the member block\<close>
  define m1 where "m1 = (newMessage (verb m) (lookupOrCreate d sourceIP (port s)) (senderHeartbeat m))
                          \<lparr>members := map (decodedMember ipLen d) (members m)\<rparr>"
  have f6: "(if length (elems s0) > 11 then do {
               t \<leftarrow> reslice s0 11 (11 + ?n * ?w);
               ms \<leftarrow> decodeMembers ipLen d ?n t;
               Some ((newMessage (verb m) (lookupOrCreate d sourceIP (port s)) (senderHeartbeat m))
                       \<lparr>members := ms\<rparr>)
             } else Some (newMessage (verb m) (lookupOrCreate d sourceIP (port s)) (senderHeartbeat m)))
            = Some m1"
  proof (cases "length (elems s0) > 11")
    case True
    define hdr where "hdr = be32 ck @ [packedByte m] @ be16 (port s) @ be32 (senderHeartbeat m)"
    have lhdr: "length hdr = 11"
      by (simp add: hdr_def)
    have "bs = hdr @ mbs @ bbs"
      by (simp add: bs hdr_def)
    then have "take (?n * ?w) (drop 11 (bs @ sp)) = mbs"
      using lmbs lhdr by simp
    then have r: "reslice s0 11 (11 + ?n * ?w) = Some \<lparr>elems = mbs, spare = drop (11 + ?n * ?w) (bs @ sp)\<rparr>"
      using lbs by (simp add: reslice_def s0_def)
    have "decodeMembers ipLen d ?n \<lparr>elems = mbs, spare = drop (11 + ?n * ?w) (bs @ sp)\<rparr>
            = Some (map (decodedMember ipLen d) (members m))"
      by (rule decodeMembers_wire [OF ipLen mok]) (simp add: mbs_def)
    then show ?thesis
      using True by (simp only: r if_True Option.bind.simps m1_def)
  next
    case False
    then have "?n * ?w = 0"
      using lbs by (simp add: el)
    then have "members m = []"
      by simp
    then show ?thesis
      using False by (simp add: m1_def newMessage_def)
  qed
  \<comment> \<open>the broadcast\<close>
  have f7: "(if length (elems s0) > 11 + ?n * ?w then do {
               t \<leftarrow> resliceFrom s0 (11 + ?n * ?w);
               (b, err) \<leftarrow> decodeBroadcast ipLen d t;
               Some (m1\<lparr>broadcast := b\<rparr>, err)
             } else Some (m1, None))
            = Some (decodedMessage ipLen d sourceIP m, None)"
  proof (cases "broadcast m")
    case None
    then have "bbs = []"
      by (simp add: bbs_def)
    then have "\<not> length (elems s0) > 11 + ?n * ?w"
      using lbs by (simp add: el)
    then show ?thesis
      using None s by (simp add: m1_def decodedMessage_def newMessage_def)
  next
    case (Some b)
    then have bok: "nodeOK ipLen (origin b)" and small: "length (bytes b) < 65536"
      using enc wf by (simp_all add: encodable_def wellFormed_def)
    have bb: "bbs = broadcastBytes ipLen b"
      using Some by (simp add: bbs_def)
    have "length bbs = 8 + ipLen + length (bytes b)"
      using bok by (simp add: bb length_broadcastBytes)
    then have gt: "length (elems s0) > 11 + ?n * ?w"
      using lbs by (simp add: el)
    define hdr where "hdr = be32 ck @ [packedByte m] @ be16 (port s) @ be32 (senderHeartbeat m)"
    have lhdr: "length hdr = 11"
      by (simp add: hdr_def)
    have "bs = hdr @ mbs @ bbs"
      by (simp add: bs hdr_def)
    then have "drop (11 + ?n * ?w) bs = bbs"
      using lmbs lhdr by simp
    moreover have "drop (length bs) (bs @ sp) = sp"
      by simp
    ultimately have r: "resliceFrom s0 (11 + ?n * ?w) = Some \<lparr>elems = bbs, spare = sp\<rparr>"
      using lbs by (simp add: resliceFrom_def reslice_def s0_def)
    have db: "decodeBroadcast ipLen d \<lparr>elems = bbs, spare = sp\<rparr> = Some (Some (decodedBroadcast d b), None)"
      by (rule decodeBroadcast_wire [OF ipLen bok small]) (simp add: bb)
    have "m1\<lparr>broadcast := Some (decodedBroadcast d b)\<rparr> = decodedMessage ipLen d sourceIP m"
      using Some s by (simp add: m1_def decodedMessage_def newMessage_def)
    then show ?thesis
      using gt by (simp only: r db if_True Option.bind.simps prod.case)
  qed
  have "decodeMessage ipLen d sourceIP s0 = Some (decodedMessage ipLen d sourceIP m, None)"
    apply (simp only: decodeMessage_def f1 f2 Option.bind.simps prod.case Let_def)
    apply (simp only: slice.simps ck_def [symmetric] simp_thms if_False f3 f4 f5
             Option.bind.simps prod.case pv pc)
    apply (simp only: f6 Option.bind.simps f7)
    done
  then show ?thesis
    by (simp only: s0_def bs_def)
qed

subsection \<open>Decoding any datagram\<close>

lemma decodeMessage_verb:
  assumes "decodeMessage ipLen d sourceIP s = Some (m', e)"
    and "e \<noteq> Some (ChecksumFailure sourceIP)"
  shows "verb m' = (elems s ! 4) AND 3"
  using assms
  by (auto simp: decodeMessage_def decodeUint32_def decodeByte_def decodeUint16_def
        newMessage_def Let_def
      split: Option.bind_splits if_splits prod.splits)

lemma decodeMembers_length:
  assumes "ipLen = 4 \<or> ipLen = 16" and "length (elems t) = k * (9 + ipLen + ipLen)"
  shows "decodeMembers ipLen d cnt t =
           Some (map (\<lambda>i. memberAt ipLen d (elems t) (i * (9 + ipLen + ipLen))) [0..<k])"
  using decodeMembers_loop_at [OF assms(1), of t 0 k d "[]"] assms(2)
  by (simp add: decodeMembers_def)

lemma reslice_length:
  "reslice s lo hi = Some t \<Longrightarrow> length (elems t) = hi - lo"
  by (auto simp: reslice_def split: if_splits)

lemma decodeMessage_member_count:
  assumes ipLen: "ipLen = 4 \<or> ipLen = 16"
    and dec: "decodeMessage ipLen d sourceIP s = Some (m', e)"
    and e: "e \<noteq> Some (ChecksumFailure sourceIP)"
    and long: "11 < length (elems s)"
  shows "length (members m') = unat (drop_bit 2 (elems s ! 4))"
proof -
  let ?c = "unat (drop_bit 2 (elems s ! 4))"
  let ?w = "9 + ipLen + ipLen"
  have ms: "length ms = ?c"
    if "reslice s 11 (11 + ?c * ?w) = Some t" and "decodeMembers ipLen d ?c t = Some ms" for t ms
  proof -
    have "length (elems t) = ?c * ?w"
      using reslice_length [OF that(1)] by simp
    from decodeMembers_length [OF ipLen this, of d ?c] that(2) show ?thesis
      by auto
  qed
  show ?thesis
    using dec e long
    by (auto simp: decodeMessage_def decodeUint32_def decodeByte_def decodeUint16_def
          newMessage_def Let_def ms
        split: Option.bind_splits if_splits prod.splits)
qed

subsection \<open>Round trip\<close>

lemma encode_SomeD: "encode ipLen m = Some bs \<Longrightarrow> encodable ipLen m \<and> bs = wire ipLen m"
  by (simp add: encode_wire split: if_splits)

text \<open>
  Claim C1, as the code has it. Let \<open>m\<close> be a well-formed message: a sender, one of
  the four verbs, at most 63 members, each with a node whose address has a form of the
  active family and a source that is absent or has such an address, and an optional
  broadcast whose origin has an address of the active family and whose payload is shorter
  than 65536 bytes. Then \<^verbatim>\<open>encode\<close> returns a datagram, and \<^verbatim>\<open>decodeMessage\<close> of that
  datagram, whatever its spare capacity, returns no error and the message \<open>m\<close> up to the
  identity of its nodes: the same verb and sender heartbeat, the members in order with the
  same status and heartbeat, the same broadcast counter and payload, every node resolved
  through the directory from its address and port, and the sender resolved from the source
  address of the datagram and the sender's port (the sender's address is not on the wire).
  A member without a source comes back with the source that the directory resolves from
  the all-zero address and the port 0.
\<close>

theorem encode_decode_roundtrip:
  assumes "ipLen = 4 \<or> ipLen = 16" and "wellFormed ipLen m"
  shows "\<exists>bs. encode ipLen m = Some bs \<and>
           decodeMessage ipLen d sourceIP \<lparr>elems = bs, spare = sp\<rparr>
             = Some (decodedMessage ipLen d sourceIP m, None)"
proof -
  have "encode ipLen m = Some (wire ipLen m)"
    using assms(2) by (simp add: encode_wire wellFormed_def)
  moreover have "decodeMessage ipLen d sourceIP \<lparr>elems = wire ipLen m, spare = sp\<rparr>
                   = Some (decodedMessage ipLen d sourceIP m, None)"
    by (rule decodeMessage_wire [OF assms])
  ultimately show ?thesis
    by blast
qed

lemma wf_two_members:
  "wellFormed 4 (pingMessage\<lparr>members := [aliveMember, sourcedMember],
                             broadcast := Some exampleBroadcast\<rparr>)"
  by (simp add: wellFormed_def encodable_def memberOK_def nodeOK_def ipBytes_def To4_def
      pingMessage_def aliveMember_def sourcedMember_def exampleBroadcast_def verbPing_def)

theorem encode_decode_roundtrip_witness:
  "(4 = (4 :: nat) \<or> (4 :: nat) = 16) \<and>
   wellFormed 4 (pingMessage\<lparr>members := [aliveMember, sourcedMember],
                             broadcast := Some exampleBroadcast\<rparr>) \<and>
   (\<exists>bs. encode 4 (pingMessage\<lparr>members := [aliveMember, sourcedMember],
                                broadcast := Some exampleBroadcast\<rparr>) = Some bs \<and>
      decodeMessage 4 emptyDirectory [10, 0, 0, 1] \<lparr>elems = bs, spare = []\<rparr>
        = Some (\<lparr>sender = Some \<lparr>ip = [10, 0, 0, 1], port = 7946\<rparr>, senderHeartbeat = 42,
                 verb = verbPing,
                 members = [\<lparr>source = Some \<lparr>ip = IPv4 0 0 0 0, port = 0\<rparr>, heartbeat = 5,
                             node = Some \<lparr>ip = IPv4 10 0 0 2, port = 7946\<rparr>,
                             status = StatusAlive\<rparr>,
                            \<lparr>source = Some \<lparr>ip = IPv4 10 0 0 3, port = 7946\<rparr>, heartbeat = 5,
                             node = Some \<lparr>ip = IPv4 10 0 0 2, port = 7946\<rparr>,
                             status = StatusAlive\<rparr>],
                 broadcast = Some \<lparr>origin = Some \<lparr>ip = IPv4 10 0 0 1, port = 7946\<rparr>,
                                    index = 3, bytes = [1, 2, 3]\<rparr>\<rparr>, None))"
proof -
  let ?m = "pingMessage\<lparr>members := [aliveMember, sourcedMember], broadcast := Some exampleBroadcast\<rparr>"
  have fam: "4 = (4 :: nat) \<or> (4 :: nat) = 16"
    by simp
  have val: "decodedMessage 4 emptyDirectory [10, 0, 0, 1] ?m
      = \<lparr>sender = Some \<lparr>ip = [10, 0, 0, 1], port = 7946\<rparr>, senderHeartbeat = 42,
         verb = verbPing,
         members = [\<lparr>source = Some \<lparr>ip = IPv4 0 0 0 0, port = 0\<rparr>, heartbeat = 5,
                     node = Some \<lparr>ip = IPv4 10 0 0 2, port = 7946\<rparr>,
                     status = StatusAlive\<rparr>,
                    \<lparr>source = Some \<lparr>ip = IPv4 10 0 0 3, port = 7946\<rparr>, heartbeat = 5,
                     node = Some \<lparr>ip = IPv4 10 0 0 2, port = 7946\<rparr>,
                     status = StatusAlive\<rparr>],
         broadcast = Some \<lparr>origin = Some \<lparr>ip = IPv4 10 0 0 1, port = 7946\<rparr>,
                            index = 3, bytes = [1, 2, 3]\<rparr>\<rparr>"
    by (simp add: decodedMessage_def decodedMember_def decodedBroadcast_def lookupOrCreate_def
        emptyDirectory_def zeroIP_def To16_def pingMessage_def aliveMember_def sourcedMember_def
        exampleBroadcast_def)
  show ?thesis
    using encode_decode_roundtrip [OF fam wf_two_members, of emptyDirectory "[10, 0, 0, 1]" "[]"]
      fam wf_two_members
    unfolding val by blast
qed

lemma replicate_6: "replicate 6 x = [x, x, x, x, x, x]"
  by (simp add: numeral_eq_Suc)

lemma wire_ping_alive:
  "wire 4 (pingMessage\<lparr>members := [aliveMember]\<rparr>) =
     [9, 225, 0, 147, 4, 31, 10, 0, 0, 0, 42, 1, 10, 0, 0, 2, 31, 10, 0, 0, 0, 5, 0, 0, 0, 0, 0, 0]"
  by (simp add: wire_def wireBody_def packedByte_def memberBytes_def be16_def be32_def
      ipBytes_def To4_def pingMessage_def aliveMember_def verbPing_def StatusAlive_def
      adler32_def adler32_step_def replicate_6)

lemma wf_ping_alive: "wellFormed 4 (pingMessage\<lparr>members := [aliveMember]\<rparr>)"
  by (simp add: wellFormed_def encodable_def memberOK_def nodeOK_def ipBytes_def To4_def
      pingMessage_def aliveMember_def verbPing_def)

text \<open>
  The claim as the spec states it fails for a member without a source: \<^verbatim>\<open>encode\<close>
  leaves its source bytes zero, and \<^verbatim>\<open>decodeMembers\<close> resolves them through the
  directory like any address, because the test \<^verbatim>\<open>len(sip) > 0\<close> holds for every
  address it builds. With a directory that knows no node, the member decoded from the
  datagram of a ping with one source-less member has the source 0.0.0.0:0.
\<close>

theorem absent_source_not_roundtripped:
  "wellFormed 4 (pingMessage\<lparr>members := [aliveMember]\<rparr>) \<and>
   source (members (pingMessage\<lparr>members := [aliveMember]\<rparr>) ! 0) = None \<and>
   encode 4 (pingMessage\<lparr>members := [aliveMember]\<rparr>) =
     Some [9, 225, 0, 147, 4, 31, 10, 0, 0, 0, 42,
           1, 10, 0, 0, 2, 31, 10, 0, 0, 0, 5, 0, 0, 0, 0, 0, 0] \<and>
   decodeMessage 4 emptyDirectory [10, 0, 0, 1]
     \<lparr>elems = [9, 225, 0, 147, 4, 31, 10, 0, 0, 0, 42,
               1, 10, 0, 0, 2, 31, 10, 0, 0, 0, 5, 0, 0, 0, 0, 0, 0],
      spare = []\<rparr> =
     Some (\<lparr>sender = Some \<lparr>ip = [10, 0, 0, 1], port = 7946\<rparr>, senderHeartbeat = 42,
            verb = verbPing,
            members = [\<lparr>source = Some \<lparr>ip = IPv4 0 0 0 0, port = 0\<rparr>, heartbeat = 5,
                        node = Some \<lparr>ip = IPv4 10 0 0 2, port = 7946\<rparr>,
                        status = StatusAlive\<rparr>],
            broadcast = None\<rparr>, None)"
proof -
  have enc: "encode 4 (pingMessage\<lparr>members := [aliveMember]\<rparr>)
               = Some (wire 4 (pingMessage\<lparr>members := [aliveMember]\<rparr>))"
    using wf_ping_alive by (simp add: encode_wire wellFormed_def)
  have four: "(4 :: nat) = 4 \<or> (4 :: nat) = 16"
    by simp
  have dec: "decodeMessage 4 emptyDirectory [10, 0, 0, 1]
               \<lparr>elems = wire 4 (pingMessage\<lparr>members := [aliveMember]\<rparr>), spare = []\<rparr>
             = Some (decodedMessage 4 emptyDirectory [10, 0, 0, 1]
                       (pingMessage\<lparr>members := [aliveMember]\<rparr>), None)"
    by (rule decodeMessage_wire [OF four wf_ping_alive])
  have val: "decodedMessage 4 emptyDirectory [10, 0, 0, 1] (pingMessage\<lparr>members := [aliveMember]\<rparr>)
      = \<lparr>sender = Some \<lparr>ip = [10, 0, 0, 1], port = 7946\<rparr>, senderHeartbeat = 42,
            verb = verbPing,
            members = [\<lparr>source = Some \<lparr>ip = IPv4 0 0 0 0, port = 0\<rparr>, heartbeat = 5,
                        node = Some \<lparr>ip = IPv4 10 0 0 2, port = 7946\<rparr>,
                        status = StatusAlive\<rparr>],
            broadcast = None\<rparr>"
    by (simp add: decodedMessage_def decodedMember_def lookupOrCreate_def emptyDirectory_def
        zeroIP_def To16_def pingMessage_def aliveMember_def)
  have src: "source (members (pingMessage\<lparr>members := [aliveMember]\<rparr>) ! 0) = None"
    by (simp add: aliveMember_def)
  show ?thesis
    using enc dec wf_ping_alive src unfolding val wire_ping_alive by simp
qed

subsection \<open>The length of a datagram and the slots of its members\<close>

lemma members_slot:
  "list_all (memberOK ipLen) ms \<Longrightarrow> i < length ms \<Longrightarrow>
   take (9 + ipLen + ipLen) (drop (i * (9 + ipLen + ipLen)) (concat (map (memberBytes ipLen) ms) @ post))
     = memberBytes ipLen (ms ! i)"
proof (induction ms arbitrary: i)
  case Nil
  then show ?case by simp
next
  case (Cons mm ms)
  have l: "length (memberBytes ipLen mm) = 9 + ipLen + ipLen"
    using Cons.prems(1) by (simp add: length_memberBytes)
  show ?case
  proof (cases i)
    case 0
    then show ?thesis
      using l by simp
  next
    case (Suc j)
    then have "drop (i * (9 + ipLen + ipLen)) (concat (map (memberBytes ipLen) (mm # ms)) @ post)
                 = drop (j * (9 + ipLen + ipLen)) (concat (map (memberBytes ipLen) ms) @ post)"
      using l by simp
    then show ?thesis
      using Cons.IH [of j] Cons.prems Suc by simp
  qed
qed

lemma wire_slot:
  assumes enc: "encodable ipLen m" and i: "i < length (members m)"
  shows "take (9 + ipLen + ipLen) (drop (11 + i * (9 + ipLen + ipLen)) (wire ipLen m))
           = memberBytes ipLen (members m ! i)"
proof -
  obtain s where s: "sender m = Some s"
    using enc by (auto simp: encodable_def)
  have mok: "list_all (memberOK ipLen) (members m)"
    using enc by (simp add: encodable_def)
  define hdr where "hdr = be32 (adler32 (wireBody ipLen m)) @ [packedByte m] @ be16 (port s) @
                            be32 (senderHeartbeat m)"
  define bbs where "bbs = (case broadcast m of None \<Rightarrow> [] | Some b \<Rightarrow> broadcastBytes ipLen b)"
  have lhdr: "length hdr = 11"
    by (simp add: hdr_def)
  have w: "wire ipLen m = hdr @ concat (map (memberBytes ipLen) (members m)) @ bbs"
    using s by (simp add: wire_def wireBody_def hdr_def bbs_def)
  have "drop (11 + i * (9 + ipLen + ipLen)) (wire ipLen m)
          = drop (i * (9 + ipLen + ipLen)) (concat (map (memberBytes ipLen) (members m)) @ bbs)"
    using lhdr by (simp add: w)
  then show ?thesis
    using members_slot [OF mok i, of bbs] by simp
qed

lemma length_wire:
  assumes "encodable ipLen m"
  shows "length (wire ipLen m) =
           11 + length (members m) * (9 + ipLen + ipLen) +
           (case broadcast m of None \<Rightarrow> 0 | Some b \<Rightarrow> 8 + ipLen + length (bytes b))"
  using length_wireBody [OF assms] by (simp add: wire_def)

lemma wire_nth:
  assumes enc: "encodable ipLen m" and i: "i < length (members m)" and k: "k < 9 + ipLen + ipLen"
  shows "wire ipLen m ! (11 + i * (9 + ipLen + ipLen) + k) = memberBytes ipLen (members m ! i) ! k"
proof -
  let ?w = "9 + ipLen + ipLen"
  have "i * ?w + ?w \<le> length (members m) * ?w"
    using i by (metis Suc_leI mult_Suc mult_le_mono1 add.commute)
  then have "11 + i * ?w + k < length (wire ipLen m)"
    using k by (simp add: length_wire [OF enc])
  then have "wire ipLen m ! (11 + i * ?w + k) = take ?w (drop (11 + i * ?w) (wire ipLen m)) ! k"
    using k by simp
  then show ?thesis
    by (simp only: wire_slot [OF enc i])
qed

lemma nth_pad: "j < k \<Longrightarrow> (pre @ replicate k x) ! (length pre + j) = x"
  by simp

text \<open>
  Claim C7. For every message that \<^verbatim>\<open>encode\<close> can write (a sender, members and a
  broadcast whose nodes have an address of the active family), \<^verbatim>\<open>encode\<close> returns a
  datagram, and for a message with \<open>n\<close> members the datagram has exactly
  \<open>11 + n * (9 + 2 * ipLen)\<close> bytes, plus \<open>8 + ipLen + length payload\<close> when the
  message has a broadcast. Member \<open>i\<close> occupies the \<open>9 + 2 * ipLen\<close> bytes from
  offset \<open>11 + i * (9 + 2 * ipLen)\<close>, with or without a source, and when it has no
  source the last \<open>ipLen + 2\<close> bytes of its slot are zero.
\<close>

theorem encode_length_and_slots:
  assumes "encodable ipLen m"
  shows "\<exists>bs. encode ipLen m = Some bs \<and>
           length bs = 11 + length (members m) * (9 + 2 * ipLen) +
                       (case broadcast m of None \<Rightarrow> 0 | Some b \<Rightarrow> 8 + ipLen + length (bytes b)) \<and>
           (\<forall>i<length (members m).
              take (9 + 2 * ipLen) (drop (11 + i * (9 + 2 * ipLen)) bs) = memberBytes ipLen (members m ! i) \<and>
              length (memberBytes ipLen (members m ! i)) = 9 + 2 * ipLen \<and>
              (source (members m ! i) = None \<longrightarrow>
                 (\<forall>j<ipLen + 2. bs ! (11 + i * (9 + 2 * ipLen) + (7 + ipLen) + j) = 0)))"
proof -
  note enc = assms
  define bs where "bs = wire ipLen m"
  have ret: "encode ipLen m = Some bs"
    using enc by (simp add: encode_wire bs_def)
  have w: "9 + 2 * ipLen = 9 + ipLen + ipLen"
    by simp
  have mok: "list_all (memberOK ipLen) (members m)"
    using enc by (simp add: encodable_def)
  have zeros: "bs ! (11 + i * (9 + ipLen + ipLen) + (7 + ipLen) + j) = 0"
    if i: "i < length (members m)" and none: "source (members m ! i) = None" and j: "j < ipLen + 2"
    for i j
  proof -
    have ok: "memberOK ipLen (members m ! i)"
      using mok i by (simp add: list_all_length)
    then obtain n where n: "node (members m ! i) = Some n"
      and nok: "ipLen \<le> length (ipBytes ipLen (ip n))"
      by (auto simp: memberOK_def nodeOK_def split: option.splits)
    define pre where "pre = [status (members m ! i)] @ take ipLen (ipBytes ipLen (ip n)) @
                              be16 (port n) @ be32 (heartbeat (members m ! i))"
    have lpre: "length pre = 7 + ipLen"
      using nok by (simp add: pre_def)
    have mb: "memberBytes ipLen (members m ! i) = pre @ replicate (ipLen + 2) 0"
      using n none by (simp add: memberBytes_def pre_def)
    have "bs ! (11 + i * (9 + ipLen + ipLen) + ((7 + ipLen) + j))
            = memberBytes ipLen (members m ! i) ! ((7 + ipLen) + j)"
      unfolding bs_def using j by (intro wire_nth [OF enc i]) simp
    also have "\<dots> = 0"
      using nth_pad [OF j, of pre 0] by (simp only: mb lpre)
    finally show ?thesis
      by (simp add: add.assoc)
  qed
  have "length bs = 11 + length (members m) * (9 + 2 * ipLen) +
                    (case broadcast m of None \<Rightarrow> 0 | Some b \<Rightarrow> 8 + ipLen + length (bytes b)) \<and>
        (\<forall>i<length (members m).
           take (9 + 2 * ipLen) (drop (11 + i * (9 + 2 * ipLen)) bs) = memberBytes ipLen (members m ! i) \<and>
           length (memberBytes ipLen (members m ! i)) = 9 + 2 * ipLen \<and>
           (source (members m ! i) = None \<longrightarrow>
              (\<forall>j<ipLen + 2. bs ! (11 + i * (9 + 2 * ipLen) + (7 + ipLen) + j) = 0)))"
    unfolding w
    using length_wire [OF enc] wire_slot [OF enc] zeros mok
    by (auto simp: bs_def list_all_length length_memberBytes)
  with ret show ?thesis
    by blast
qed

theorem encode_length_and_slots_witness:
  "encodable 4 (pingMessage\<lparr>members := [aliveMember, sourcedMember],
                            broadcast := Some exampleBroadcast\<rparr>) \<and>
   (\<exists>bs. encode 4 (pingMessage\<lparr>members := [aliveMember, sourcedMember],
                                broadcast := Some exampleBroadcast\<rparr>) = Some bs \<and>
      length bs = 60 \<and>
      take 17 (drop 11 bs) = memberBytes 4 aliveMember \<and>
      take 17 (drop 28 bs) = memberBytes 4 sourcedMember \<and>
      length (memberBytes 4 aliveMember) = 17 \<and>
      source aliveMember = None \<and>
      bs ! 22 = 0 \<and> bs ! 27 = 0)"
proof -
  let ?m = "pingMessage\<lparr>members := [aliveMember, sourcedMember], broadcast := Some exampleBroadcast\<rparr>"
  have enc: "encodable 4 ?m"
    by (simp add: encodable_def memberOK_def nodeOK_def ipBytes_def To4_def pingMessage_def
        aliveMember_def sourcedMember_def exampleBroadcast_def)
  obtain bs where ret: "encode 4 ?m = Some bs"
    and len0: "length bs = 11 + length (members ?m) * (9 + 2 * 4) +
                 (case broadcast ?m of None \<Rightarrow> 0 | Some b \<Rightarrow> 8 + 4 + length (bytes b))"
    and slots: "\<forall>i<length (members ?m).
            take (9 + 2 * 4) (drop (11 + i * (9 + 2 * 4)) bs) = memberBytes 4 (members ?m ! i) \<and>
            length (memberBytes 4 (members ?m ! i)) = 9 + 2 * 4 \<and>
            (source (members ?m ! i) = None \<longrightarrow>
               (\<forall>j<4 + 2. bs ! (11 + i * (9 + 2 * 4) + (7 + 4) + j) = 0))"
    using encode_length_and_slots [OF enc] by blast
  have len: "length bs = 60"
    using len0 by (simp add: pingMessage_def exampleBroadcast_def)
  have none: "source aliveMember = None"
    by (simp add: aliveMember_def)
  have slot0: "take (9 + 2 * 4) (drop (11 + 0 * (9 + 2 * 4)) bs) = memberBytes 4 (members ?m ! 0) \<and>
      length (memberBytes 4 (members ?m ! 0)) = 9 + 2 * 4 \<and>
      (source (members ?m ! 0) = None \<longrightarrow>
         (\<forall>j<4 + 2. bs ! (11 + 0 * (9 + 2 * 4) + (7 + 4) + j) = 0))"
    using slots [THEN spec, of 0] by simp
  have slot1: "take (9 + 2 * 4) (drop (11 + 1 * (9 + 2 * 4)) bs) = memberBytes 4 (members ?m ! 1)"
    using slots [THEN spec, of 1] by simp
  have z: "\<forall>j<4 + 2. bs ! (11 + 0 * (9 + 2 * 4) + (7 + 4) + j) = 0"
    using slot0 none by simp
  have z0: "bs ! 22 = 0"
    using z [THEN spec, of 0] by simp
  have z5: "bs ! 27 = 0"
    using z [THEN spec, of 5] by simp
  have "length bs = 60 \<and>
      take 17 (drop 11 bs) = memberBytes 4 aliveMember \<and>
      take 17 (drop 28 bs) = memberBytes 4 sourcedMember \<and>
      length (memberBytes 4 aliveMember) = 17 \<and>
      source aliveMember = None \<and>
      bs ! 22 = 0 \<and> bs ! 27 = 0"
    using len slot0 slot1 none z0 z5 by simp
  with enc ret show ?thesis
    by blast
qed

subsection \<open>The checksum field\<close>








subsection \<open>The member count that decodeMembers is given\<close>

text \<open>
  Claim C9. On a slice whose length is \<open>k\<close> times the member width
  \<open>9 + 2 * ipLen\<close>, \<^verbatim>\<open>decodeMembers\<close> returns exactly \<open>k\<close> members, that is the
  length of the slice divided by the width, whatever member count it is given: two calls
  that differ only in the count return the same.
\<close>

theorem decodeMembers_count_ignored:
  assumes "ipLen = 4 \<or> ipLen = 16" and "length (elems s) = k * (9 + 2 * ipLen)"
  shows "(\<exists>ms. decodeMembers ipLen d cnt s = Some ms \<and> length ms = k \<and>
               length ms = length (elems s) div (9 + 2 * ipLen)) \<and>
         decodeMembers ipLen d cnt s = decodeMembers ipLen d cnt' s"
proof -
  have len: "length (elems s) = k * (9 + ipLen + ipLen)"
    using assms(2) by simp
  have "decodeMembers ipLen d cnt s =
          Some (map (\<lambda>i. memberAt ipLen d (elems s) (i * (9 + ipLen + ipLen))) [0..<k])"
    by (rule decodeMembers_length [OF assms(1) len])
  moreover have "length (elems s) div (9 + 2 * ipLen) = k"
    using assms(2) by simp
  ultimately show ?thesis
    by (simp add: decodeMembers_def)
qed

theorem decodeMembers_count_ignored_witness:
  "((4 :: nat) = 4 \<or> (4 :: nat) = 16) \<and>
   length (elems \<lparr>elems = replicate 51 0, spare = []\<rparr>) = 3 * (9 + 2 * 4) \<and>
   (\<exists>ms. decodeMembers 4 emptyDirectory 0 \<lparr>elems = replicate 51 0, spare = []\<rparr> = Some ms \<and>
          length ms = 3 \<and>
          length ms = length (elems \<lparr>elems = replicate 51 0, spare = []\<rparr>) div (9 + 2 * 4)) \<and>
   decodeMembers 4 emptyDirectory 0 \<lparr>elems = replicate 51 0, spare = []\<rparr>
     = decodeMembers 4 emptyDirectory 63 \<lparr>elems = replicate 51 0, spare = []\<rparr>"
proof -
  have fam: "(4 :: nat) = 4 \<or> (4 :: nat) = 16"
    by simp
  have len: "length (elems \<lparr>elems = replicate 51 0, spare = []\<rparr>) = 3 * (9 + 2 * 4)"
    by simp
  show ?thesis
    using decodeMembers_count_ignored [OF fam len, of emptyDirectory 0 63] fam len
    by blast
qed

subsection \<open>The packed byte of a datagram\<close>

text \<open>
  Claim C6. For every message that \<^verbatim>\<open>encode\<close> can write, \<^verbatim>\<open>encode\<close> returns a
  datagram whose byte at offset 4 is the member count shifted left by two bits, or-ed
  with the verb; and every datagram that \<^verbatim>\<open>encode\<close> returns has that byte there. For
  a verb below 4 and fewer than 64 members, masking that byte with 3 gives the verb back
  and shifting it right by two bits gives the member count back. \<^verbatim>\<open>decodeMessage\<close>
  reads them so: a message decoded without a checksum error has the verb \<open>byte AND 3\<close>,
  and, when the datagram is longer than its 11-byte header, \<open>byte >> 2\<close> members; and
  the datagram of a well-formed message decodes, with no error, to a message with the
  same verb and the same number of members. An acknowledgement with five members is
  encoded with the packed byte 0x15, and 0x15 unpacks to the verb ACK and the count 5.
\<close>

theorem packed_byte:
  "(encodable ipLen m \<longrightarrow>
      (\<exists>bs. encode ipLen m = Some bs \<and>
         bs ! 4 = push_bit 2 (word_of_nat (length (members m))) OR verb m)) \<and>
   (encode ipLen m = Some bs \<longrightarrow>
      bs ! 4 = push_bit 2 (word_of_nat (length (members m))) OR verb m) \<and>
   (verb m < 4 \<and> length (members m) < 64 \<longrightarrow>
      (push_bit 2 (word_of_nat (length (members m))) OR verb m) AND 0x03 = verb m \<and>
      unat (drop_bit 2 (push_bit 2 (word_of_nat (length (members m)) :: byte) OR verb m))
        = length (members m)) \<and>
   (decodeMessage ipLen d sourceIP s = Some (m', e) \<and> e \<noteq> Some (ChecksumFailure sourceIP) \<longrightarrow>
      verb m' = (elems s ! 4) AND 0x03 \<and>
      ((ipLen = 4 \<or> ipLen = 16) \<and> 11 < length (elems s) \<longrightarrow>
         length (members m') = unat (drop_bit 2 (elems s ! 4)))) \<and>
   ((ipLen = 4 \<or> ipLen = 16) \<and> wellFormed ipLen m \<longrightarrow>
      (\<exists>bs m'. encode ipLen m = Some bs \<and>
         decodeMessage ipLen d sourceIP \<lparr>elems = bs, spare = sp\<rparr> = Some (m', None) \<and>
         verb m' = bs ! 4 AND 0x03 \<and> verb m' = verb m \<and>
         length (members m') = unat (drop_bit 2 (bs ! 4)) \<and>
         length (members m') = length (members m))) \<and>
   (encodable ipLen m \<and> verb m = verbAck \<and> length (members m) = 5 \<longrightarrow>
      (\<exists>bs. encode ipLen m = Some bs \<and> bs ! 4 = 0x15)) \<and>
   (0x15 :: byte) AND 0x03 = verbAck \<and> unat (drop_bit 2 (0x15 :: byte)) = 5"
proof -
  have w4: "wire ipLen m ! 4 = push_bit 2 (word_of_nat (length (members m))) OR verb m"
    by (simp add: wire_def nth_append wireBody_def packedByte_def)
  have at4: "bs ! 4 = push_bit 2 (word_of_nat (length (members m))) OR verb m"
    if "encode ipLen m = Some bs"
    using encode_SomeD [OF that] w4 by simp
  have ret: "\<exists>bs. encode ipLen m = Some bs \<and>
               bs ! 4 = push_bit 2 (word_of_nat (length (members m))) OR verb m"
    if "encodable ipLen m"
    using that w4 by (simp add: encode_wire)
  have ack: "\<exists>bs. encode ipLen m = Some bs \<and> bs ! 4 = 0x15"
    if "encodable ipLen m" and "verb m = verbAck" and "length (members m) = 5"
    using ret [OF that(1)] that(2,3) by (simp add: verbAck_def)
  have trip: "\<exists>bs m'. encode ipLen m = Some bs \<and>
         decodeMessage ipLen d sourceIP \<lparr>elems = bs, spare = sp\<rparr> = Some (m', None) \<and>
         verb m' = bs ! 4 AND 0x03 \<and> verb m' = verb m \<and>
         length (members m') = unat (drop_bit 2 (bs ! 4)) \<and>
         length (members m') = length (members m)"
    if fam: "ipLen = 4 \<or> ipLen = 16" and wf: "wellFormed ipLen m"
  proof -
    have e: "encode ipLen m = Some (wire ipLen m)"
      using wf by (simp add: encode_wire wellFormed_def)
    have small: "verb m < 4" "length (members m) < 64"
      using wf by (simp_all add: wellFormed_def)
    have dm: "decodeMessage ipLen d sourceIP \<lparr>elems = wire ipLen m, spare = sp\<rparr>
            = Some (decodedMessage ipLen d sourceIP m, None)"
      by (rule decodeMessage_wire [OF fam wf])
    have v: "verb (decodedMessage ipLen d sourceIP m) = verb m"
      and n: "length (members (decodedMessage ipLen d sourceIP m)) = length (members m)"
      by (simp_all add: decodedMessage_def)
    have v4: "wire ipLen m ! 4 AND 0x03 = verb m"
      using packed_verb [OF small(1), of "word_of_nat (length (members m))"] by (simp add: w4)
    have n4: "unat (drop_bit 2 (wire ipLen m ! 4)) = length (members m)"
      using packed_count [OF small(2) small(1)] by (simp add: w4)
    show ?thesis
      using e dm v n v4 n4 by simp
  qed
  show ?thesis
    using at4 ret ack trip packed_verb [of "verb m" "word_of_nat (length (members m))"]
      packed_count [of "length (members m)" "verb m"]
      decodeMessage_verb [of ipLen d sourceIP s m' e]
      decodeMessage_member_count [of ipLen d sourceIP s m' e]
    by (simp add: verbAck_def)
qed

lemma wf_ack: "wellFormed 4 ackMessage"
  by (simp add: wellFormed_def encodable_def memberOK_def nodeOK_def ipBytes_def To4_def
      ackMessage_def pingMessage_def aliveMember_def verbAck_def list_all_iff)

theorem packed_byte_witness:
  "encodable 4 ackMessage \<and> wellFormed 4 ackMessage \<and>
   verb ackMessage = verbAck \<and> length (members ackMessage) = 5 \<and>
   verb ackMessage < 4 \<and> length (members ackMessage) < 64 \<and>
   (\<exists>bs. encode 4 ackMessage = Some bs \<and> bs ! 4 = 0x15) \<and>
   (\<exists>bs m'. encode 4 ackMessage = Some bs \<and>
      decodeMessage 4 emptyDirectory [10, 0, 0, 1] \<lparr>elems = bs, spare = []\<rparr> = Some (m', None) \<and>
      verb m' = verbAck \<and> length (members m') = 5) \<and>
   encode 4 ackMessage = Some (wire 4 ackMessage) \<and>
   wire 4 ackMessage ! 4 = 0x15 \<and>
   decodeMessage 4 emptyDirectory [10, 0, 0, 1] \<lparr>elems = wire 4 ackMessage, spare = []\<rparr>
     = Some (decodedMessage 4 emptyDirectory [10, 0, 0, 1] ackMessage, None) \<and>
   11 < length (elems \<lparr>elems = wire 4 ackMessage, spare = []\<rparr>) \<and>
   verb (decodedMessage 4 emptyDirectory [10, 0, 0, 1] ackMessage) = 0x15 AND 0x03 \<and>
   length (members (decodedMessage 4 emptyDirectory [10, 0, 0, 1] ackMessage))
     = unat (drop_bit 2 (0x15 :: byte))"
proof -
  have four: "(4 :: nat) = 4 \<or> (4 :: nat) = 16"
    by simp
  have enc: "encodable 4 ackMessage"
    using wf_ack by (simp add: wellFormed_def)
  have ret: "encode 4 ackMessage = Some (wire 4 ackMessage)"
    using enc by (simp add: encode_wire)
  have vb: "verb ackMessage = verbAck" and n: "length (members ackMessage) = 5"
    by (simp_all add: ackMessage_def)
  have small: "verb ackMessage < 4" "length (members ackMessage) < 64"
    by (simp_all add: ackMessage_def verbAck_def)
  have dec: "decodeMessage 4 emptyDirectory [10, 0, 0, 1] \<lparr>elems = wire 4 ackMessage, spare = []\<rparr>
               = Some (decodedMessage 4 emptyDirectory [10, 0, 0, 1] ackMessage, None)"
    by (rule decodeMessage_wire [OF four wf_ack])
  have long: "11 < length (elems \<lparr>elems = wire 4 ackMessage, spare = []\<rparr>)"
    using enc n by (simp add: length_wire)
  note T = packed_byte [of 4 ackMessage "wire 4 ackMessage" emptyDirectory "[10, 0, 0, 1]"
              "\<lparr>elems = wire 4 ackMessage, spare = []\<rparr>"
              "decodedMessage 4 emptyDirectory [10, 0, 0, 1] ackMessage" None "[]"]
  have b4: "\<exists>bs. encode 4 ackMessage = Some bs \<and> bs ! 4 = 0x15"
    using T enc vb n by blast
  then have w4: "wire 4 ackMessage ! 4 = 0x15"
    using ret by simp
  have "\<exists>bs m'. encode 4 ackMessage = Some bs \<and>
      decodeMessage 4 emptyDirectory [10, 0, 0, 1] \<lparr>elems = bs, spare = []\<rparr> = Some (m', None) \<and>
      verb m' = verb ackMessage \<and> length (members m') = length (members ackMessage)"
    using T four wf_ack by blast
  then have rt: "\<exists>bs m'. encode 4 ackMessage = Some bs \<and>
      decodeMessage 4 emptyDirectory [10, 0, 0, 1] \<lparr>elems = bs, spare = []\<rparr> = Some (m', None) \<and>
      verb m' = verbAck \<and> length (members m') = 5"
    by (simp only: vb n)
  have "verb (decodedMessage 4 emptyDirectory [10, 0, 0, 1] ackMessage)
          = (elems \<lparr>elems = wire 4 ackMessage, spare = []\<rparr> ! 4) AND 0x03"
    and "length (members (decodedMessage 4 emptyDirectory [10, 0, 0, 1] ackMessage))
          = unat (drop_bit 2 (elems \<lparr>elems = wire 4 ackMessage, spare = []\<rparr> ! 4))"
    using T dec long four by blast+
  then have rd: "verb (decodedMessage 4 emptyDirectory [10, 0, 0, 1] ackMessage) = 0x15 AND 0x03"
    "length (members (decodedMessage 4 emptyDirectory [10, 0, 0, 1] ackMessage))
       = unat (drop_bit 2 (0x15 :: byte))"
    by (simp_all add: w4)
  show ?thesis
    using enc wf_ack vb n small b4 rt ret w4 dec long rd by blast
qed

subsection \<open>The status byte\<close>





end
